theory Spec2Isabelle
  imports Main "HOL-Library.Word"
begin

unbundle bit_operations_syntax

section \<open>Values shared by the database model\<close>

text \<open>
  A value bound to a named SQL parameter or held in a column. The JavaScript values the
  request handler binds are \<open>null\<close>, bigints and numbers, strings, and byte buffers.
  Snowflake identifiers, which travel as decimal strings and are stored in integer
  columns, are represented by the integer they denote.
\<close>

datatype sqlval = SNull | SInt int | SText string | SBlob "8 word list"

text \<open>A JavaScript object used as the named parameters of a statement, or a result row.\<close>

type_synonym sqlobj = "string \<rightharpoonup> sqlval"

datatype error =
    MissingNamedParameter string  \<comment> \<open>RangeError of the driver: a placeholder has no value\<close>
  | NotMoreRecent                 \<comment> \<open>RangeError thrown by \<open>addSnapshot\<close>\<close>
  | TypeError
  | SyntaxError

text \<open>\<open>Timing\<close> of \<open>types.ts\<close> and \<open>encodeTiming\<close> of the request handler.\<close>

record Timing =
  timestamp :: int
  realtime :: bool

definition encodeTiming :: "Timing option \<Rightarrow> int" where
  "encodeTiming timing =
     (case timing of None \<Rightarrow> 0
      | Some t \<Rightarrow> push_bit 1 (timestamp t) OR (if realtime t then 1 else 0))"

section \<open>Generic encoding: arrays of snowflakes\<close>

text \<open>
  \<open>BigInt(string)\<close> and \<open>String(bigint)\<close>. The conversion from strings covers an optional
  sign followed by decimal digits, and the empty string (which is \<open>0n\<close>); \<open>None\<close> is a
  \<open>SyntaxError\<close>. Surrounding white space and the \<open>0x\<close>, \<open>0o\<close> and \<open>0b\<close> literal forms,
  which JavaScript also accepts, are not covered and give \<open>None\<close> here.
\<close>

definition is_digit :: "char \<Rightarrow> bool" where
  "is_digit c = (48 \<le> (of_char c :: nat) \<and> (of_char c :: nat) \<le> 57)"

definition digit_of_char :: "char \<Rightarrow> nat" where
  "digit_of_char c = of_char c - 48"

definition char_of_digit :: "nat \<Rightarrow> char" where
  "char_of_digit d = char_of (48 + d)"

definition decimal_value :: "string \<Rightarrow> nat" where
  "decimal_value s = foldl (\<lambda>acc c. 10 * acc + digit_of_char c) 0 s"

fun decimal_digits :: "nat \<Rightarrow> string" where
  "decimal_digits n =
     (if n < 10 then [char_of_digit n]
      else decimal_digits (n div 10) @ [char_of_digit (n mod 10)])"

declare decimal_digits.simps [simp del]

definition BigInt :: "string \<Rightarrow> int option" where
  "BigInt s =
     (case s of
        [] \<Rightarrow> Some 0
      | c # cs \<Rightarrow>
          if c = CHR ''-'' \<and> cs \<noteq> [] \<and> list_all is_digit cs then Some (- int (decimal_value cs))
          else if c = CHR ''+'' \<and> cs \<noteq> [] \<and> list_all is_digit cs then Some (int (decimal_value cs))
          else if list_all is_digit s then Some (int (decimal_value s))
          else None)"

definition String :: "int \<Rightarrow> string" where
  "String v = (if v < 0 then CHR ''-'' # decimal_digits (nat (- v)) else decimal_digits (nat v))"

text \<open>
  \<open>DataView.setBigUint64\<close> and \<open>getBigUint64\<close> (big-endian, the default): the value is
  reduced modulo \<open>2 ^ 64\<close> and written as eight bytes, most significant first.
\<close>

fun be_bytes :: "nat \<Rightarrow> nat \<Rightarrow> 8 word list" where
  "be_bytes 0 n = []"
| "be_bytes (Suc k) n = be_bytes k (n div 256) @ [of_nat (n mod 256)]"

definition be_value :: "8 word list \<Rightarrow> nat" where
  "be_value bs = foldl (\<lambda>acc b. 256 * acc + unat b) 0 bs"

definition setBigUint64 :: "int \<Rightarrow> 8 word list" where
  "setBigUint64 v = be_bytes 8 (nat (v mod 2 ^ 64))"

definition getBigUint64 :: "8 word list \<Rightarrow> nat \<Rightarrow> int" where
  "getBigUint64 buf byteOffset = int (be_value (take 8 (drop byteOffset buf)))"

text \<open>
  \<open>encodeSnowflakeArray\<close> writes element \<open>i\<close> at byte offset \<open>8 * i\<close> of a fresh buffer
  of \<open>8 * length\<close> bytes; \<open>decodeSnowflakeArray\<close> reads the buffer back in steps of eight.
\<close>

fun encodeSnowflakeArray :: "string list \<Rightarrow> error + 8 word list" where
  "encodeSnowflakeArray [] = Inr []"
| "encodeSnowflakeArray (s # rest) =
     (case BigInt s of
        None \<Rightarrow> Inl SyntaxError
      | Some v \<Rightarrow>
          (case encodeSnowflakeArray rest of
             Inl e \<Rightarrow> Inl e
           | Inr bytes \<Rightarrow> Inr (setBigUint64 v @ bytes)))"

definition decodeSnowflakeArray :: "8 word list \<Rightarrow> error + string list" where
  "decodeSnowflakeArray buf =
     (if length buf mod 8 \<noteq> 0 then Inl TypeError
      else Inr (map (\<lambda>i. String (getBigUint64 buf (8 * i))) [0 ..< length buf div 8]))"



text \<open>
  The strings \<open>String\<close> produces for a non-negative bigint: decimal digits with no leading
  zero (\<open>''0''\<close> itself apart).
\<close>

definition canonical_decimal :: "string \<Rightarrow> bool" where
  "canonical_decimal s = (s \<noteq> [] \<and> list_all is_digit s \<and> (hd s = CHR ''0'' \<longrightarrow> s = ''0''))"

section \<open>REST client: the retry loop of \<open>apiReq\<close>\<close>

text \<open>
  What one \<open>await fetch(request)\<close> can do: deliver a response with a status, fail with a
  \<open>TypeError\<close> (a network error), fail with an abort, or fail with anything else.
  The Boolean paired with each outcome is the value of \<open>controller.signal.aborted\<close> when the
  loop tests it after a failed attempt.
\<close>

datatype fetch_outcome = Response nat | NetworkError | FetchAbort | OtherError

datatype api_result = Returned nat | ThrownAbort | ThrownOther | Pending

text \<open>
  The \<open>while (true)\<close> loop of \<open>apiReq\<close>, run against a finite script of fetch outcomes.
  The result is the list of intervals handed to \<open>timeout\<close>, in order, and how the call
  ended (\<open>Pending\<close>: the script ran out while the loop was still retrying).
  A 429 or 5xx response and a network error fall through to the wait at the end of the
  body; any other response returns; the update of the interval is the last statement.
\<close>

fun apiReq_loop :: "nat \<Rightarrow> (fetch_outcome \<times> bool) list \<Rightarrow> nat list \<times> api_result" where
  "apiReq_loop interval [] = ([], Pending)"
| "apiReq_loop interval ((outcome, aborted) # rest) =
     (let retry =
            (if aborted then ([], ThrownAbort)
             else (let (waits, r) = apiReq_loop (max (interval + 2000) 60000) rest
                   in (interval # waits, r)))
      in case outcome of
           Response status \<Rightarrow>
             if status = 429 then retry
             else if 500 \<le> status \<and> status < 600 then retry
             else ([], Returned status)
         | NetworkError \<Rightarrow> retry
         | FetchAbort \<Rightarrow> ([], ThrownAbort)
         | OtherError \<Rightarrow> ([], ThrownOther))"

definition apiReq :: "(fetch_outcome \<times> bool) list \<Rightarrow> nat list \<times> api_result" where
  "apiReq script = apiReq_loop 0 script"

section \<open>Database writer: reactions\<close>

text \<open>A row of the \<open>reactions\<close> table.\<close>

record reaction =
  message_id :: sqlval
  emoji :: sqlval
  rtype :: sqlval
  user_id :: sqlval
  rstart :: sqlval
  rend :: sqlval

text \<open>
  Binding a parameter object to a statement: every placeholder of the statement must be a
  key of the object, and keys without a placeholder are ignored (\<open>addSnapshot\<close> relies on
  this when it hands a whole object to \<open>doesExist\<close>, whose only placeholder is \<open>:id\<close>).
\<close>

fun bindParams :: "string list \<Rightarrow> sqlobj \<Rightarrow> error option" where
  "bindParams [] obj = None"
| "bindParams (p # ps) obj = (case obj p of None \<Rightarrow> Some (MissingNamedParameter p) | Some _ \<Rightarrow> bindParams ps obj)"

definition arg :: "sqlobj \<Rightarrow> string \<Rightarrow> sqlval" where
  "arg obj p = (case obj p of None \<Rightarrow> SNull | Some v \<Rightarrow> v)"

text \<open>
  The three prepared \<open>UPDATE reactions SET end = :end WHERE \<dots> AND end IS NULL\<close> statements.
  \<open>IS\<close> is SQL's null-safe equality.
\<close>

definition markReactionAsRemoved :: "sqlobj \<Rightarrow> reaction list \<Rightarrow> error + reaction list" where
  "markReactionAsRemoved ps rows =
     (case bindParams [''end'', ''message_id'', ''emoji'', ''type'', ''user_id''] ps of
        Some e \<Rightarrow> Inl e
      | None \<Rightarrow> Inr (map (\<lambda>r. if message_id r = arg ps ''message_id'' \<and> emoji r = arg ps ''emoji''
                                   \<and> rtype r = arg ps ''type'' \<and> user_id r = arg ps ''user_id''
                                   \<and> rend r = SNull
                                then r\<lparr>rend := arg ps ''end''\<rparr> else r) rows))"

definition markReactionsAsRemovedByMessage :: "sqlobj \<Rightarrow> reaction list \<Rightarrow> error + reaction list" where
  "markReactionsAsRemovedByMessage ps rows =
     (case bindParams [''end'', ''message_id''] ps of
        Some e \<Rightarrow> Inl e
      | None \<Rightarrow> Inr (map (\<lambda>r. if message_id r = arg ps ''message_id'' \<and> rend r = SNull
                                then r\<lparr>rend := arg ps ''end''\<rparr> else r) rows))"

definition markReactionsAsRemovedByMessageAndEmoji :: "sqlobj \<Rightarrow> reaction list \<Rightarrow> error + reaction list" where
  "markReactionsAsRemovedByMessageAndEmoji ps rows =
     (case bindParams [''end'', ''message_id'', ''emoji''] ps of
        Some e \<Rightarrow> Inl e
      | None \<Rightarrow> Inr (map (\<lambda>r. if message_id r = arg ps ''message_id'' \<and> emoji r = arg ps ''emoji''
                                   \<and> rend r = SNull
                                then r\<lparr>rend := arg ps ''end''\<rparr> else r) rows))"

text \<open>\<open>APIPartialEmoji\<close> and \<open>encodeEmoji\<close> of \<open>generic-encoding.ts\<close>.\<close>

record APIPartialEmoji =
  emoji_id :: "int option"
  emoji_name :: string

definition encodeEmoji :: "APIPartialEmoji \<Rightarrow> sqlval" where
  "encodeEmoji e = (case emoji_id e of Some i \<Rightarrow> SInt i | None \<Rightarrow> SText (emoji_name e))"

text \<open>The two removal requests and their cases in the request handler.\<close>

datatype reaction_request =
    MARK_REACTION_AS_REMOVED int APIPartialEmoji int int Timing
  | MARK_REACTIONS_AS_REMOVED_BULK int "APIPartialEmoji option" Timing

fun handle_reaction_request :: "reaction_request \<Rightarrow> reaction list \<Rightarrow> error + reaction list" where
  "handle_reaction_request (MARK_REACTION_AS_REMOVED messageID e reactionType userID timing) rows =
     markReactionAsRemoved
       [''message_id'' \<mapsto> SInt messageID, ''emoji'' \<mapsto> encodeEmoji e,
        ''type'' \<mapsto> SInt reactionType, ''user_id'' \<mapsto> SInt userID,
        ''end'' \<mapsto> SInt (encodeTiming (Some timing))] rows"
| "handle_reaction_request (MARK_REACTIONS_AS_REMOVED_BULK messageID None timing) rows =
     markReactionsAsRemovedByMessage
       [''message_id'' \<mapsto> SInt messageID,
        ''end'' \<mapsto> SInt (encodeTiming (Some timing))] rows"
| "handle_reaction_request (MARK_REACTIONS_AS_REMOVED_BULK messageID (Some e) timing) rows =
     markReactionsAsRemovedByMessage
       [''message_id'' \<mapsto> SInt messageID, ''emoji'' \<mapsto> encodeEmoji e,
        ''end'' \<mapsto> SInt (encodeTiming (Some timing))] rows"

section \<open>Database writer: snapshots\<close>

text \<open>\<open>AddSnapshotResult\<close> of \<open>types.ts\<close>.\<close>

datatype AddSnapshotResult =
    ADDED_FIRST_SNAPSHOT | ADDED_ANOTHER_SNAPSHOT | SAME_AS_LATEST | PARTIAL_NO_SNAPSHOT

text \<open>
  The two tables of one object type, \<open>latest_X_snapshots\<close> and \<open>previous_X_snapshots\<close>.
  A row maps column names to values; a column a row does not mention reads as \<open>NULL\<close>.
\<close>

record snapshot_tables =
  latest :: "sqlobj list"
  previous :: "sqlobj list"

text \<open>
  \<open>ObjectStatements\<close>: the prepared statements \<open>addSnapshot\<close> is given. The four
  \<open>SELECT\<close>s are run with \<open>.get\<close>, which returns the first row or \<open>undefined\<close>; the other
  three are run with \<open>.run\<close> and change the tables. Each can fail while binding.
\<close>

record ObjectStatements =
  doesExist :: "sqlobj \<Rightarrow> snapshot_tables \<Rightarrow> error + sqlobj option"
  getLatestSnapshot :: "sqlobj \<Rightarrow> snapshot_tables \<Rightarrow> error + sqlobj option"
  isLatestSnapshotEqual :: "sqlobj \<Rightarrow> snapshot_tables \<Rightarrow> error + sqlobj option"
  getTimestamp :: "sqlobj \<Rightarrow> snapshot_tables \<Rightarrow> error + sqlobj option"
  addLatestSnapshot :: "sqlobj \<Rightarrow> snapshot_tables \<Rightarrow> error + snapshot_tables"
  copyLatestSnapshot :: "sqlobj \<Rightarrow> snapshot_tables \<Rightarrow> error + snapshot_tables"
  replaceLatestSnapshot :: "sqlobj \<Rightarrow> snapshot_tables \<Rightarrow> error + snapshot_tables"

text \<open>
  SQL's \<open>=\<close> (never true on \<open>NULL\<close>; \<open>IS\<close> is plain equality), the projection of a row
  on a list of columns, and the two \<open>WHERE\<close> conditions the statements use.
\<close>

definition sql_eq :: "sqlval \<Rightarrow> sqlval \<Rightarrow> bool" where
  "sql_eq a b = (a \<noteq> SNull \<and> b \<noteq> SNull \<and> a = b)"

definition select :: "string list \<Rightarrow> sqlobj \<Rightarrow> sqlobj" where
  "select cols r = (\<lambda>k. if k \<in> set cols then Some (arg r k) else None)"

definition idMatches :: "sqlobj \<Rightarrow> sqlobj \<Rightarrow> bool" where
  "idMatches obj r = sql_eq (arg r ''id'') (arg obj ''id'')"

definition snapshotEquals :: "string list \<Rightarrow> sqlobj \<Rightarrow> sqlobj \<Rightarrow> bool" where
  "snapshotEquals snapshotKeys obj r = list_all (\<lambda>k. arg r k = arg obj k) snapshotKeys"

text \<open>Running a statement: bind the placeholders, then produce the result.\<close>

definition query :: "string list \<Rightarrow> sqlobj \<Rightarrow> 'a \<Rightarrow> error + 'a" where
  "query placeholders obj result =
     (case bindParams placeholders obj of Some e \<Rightarrow> Inl e | None \<Rightarrow> Inr result)"

text \<open>
  \<open>getStatements(objectName, parentIDName, snapshotKeys, objectKeys)\<close>, restricted to the
  seven statements of \<open>ObjectStatements\<close>, over the two tables of \<open>objectName\<close>. The
  placeholders of each statement are listed in the order they occur in its SQL text.
\<close>

definition getStatements :: "string list \<Rightarrow> string list \<Rightarrow> ObjectStatements" where
  "getStatements snapshotKeys objectKeys =
     \<lparr> doesExist = (\<lambda>obj db.
         query [''id''] obj
           (map_option (\<lambda>r. [''1'' \<mapsto> SInt 1]) (find (idMatches obj) (latest db)))),
       getLatestSnapshot = (\<lambda>obj db.
         query [''id'', ''$getAll''] obj
           (map_option (select (''id'' # ''_deleted'' # objectKeys @ ''_timestamp'' # snapshotKeys))
              (find (\<lambda>r. idMatches obj r \<or> sql_eq (arg obj ''$getAll'') (SInt 1)) (latest db)))),
       isLatestSnapshotEqual = (\<lambda>obj db.
         query (''id'' # snapshotKeys) obj
           (map_option (\<lambda>r. [''1'' \<mapsto> SInt 1])
              (find (\<lambda>r. idMatches obj r \<and> snapshotEquals snapshotKeys obj r) (latest db)))),
       getTimestamp = (\<lambda>obj db.
         query [''id''] obj
           (map_option (select [''_timestamp'']) (find (idMatches obj) (latest db)))),
       addLatestSnapshot = (\<lambda>obj db.
         query (''id'' # objectKeys @ ''_timestamp'' # snapshotKeys) obj
           (db\<lparr>latest := latest db
                  @ [select (''id'' # objectKeys @ ''_timestamp'' # snapshotKeys) obj]\<rparr>)),
       copyLatestSnapshot = (\<lambda>obj db.
         query [''id''] obj
           (db\<lparr>previous := previous db
                  @ map (select (''id'' # ''_timestamp'' # snapshotKeys))
                      (filter (idMatches obj) (latest db))\<rparr>)),
       replaceLatestSnapshot = (\<lambda>obj db.
         query (''_timestamp'' # snapshotKeys @ [''id'']) obj
           (db\<lparr>latest := map (\<lambda>r. if idMatches obj r
                                    then r ++ select (''_timestamp'' # snapshotKeys) obj else r)
                              (latest db)\<rparr>)) \<rparr>"

text \<open>
  The test \<open>BigInt(object._timestamp) <= getTimestamp.get(object)._timestamp\<close>.
  \<open>BigInt\<close> of \<open>undefined\<close> or \<open>null\<close> is a \<open>TypeError\<close>, and so is reading a property of
  \<open>undefined\<close> when the query has no row. A bigint compared with \<open>null\<close> is compared with 0.
\<close>

definition toBigInt :: "sqlval option \<Rightarrow> error + int" where
  "toBigInt v =
     (case v of
        Some (SInt i) \<Rightarrow> Inr i
      | Some (SText s) \<Rightarrow> (case BigInt s of None \<Rightarrow> Inl SyntaxError | Some i \<Rightarrow> Inr i)
      | _ \<Rightarrow> Inl TypeError)"

fun bigint_le :: "int \<Rightarrow> sqlval \<Rightarrow> bool" where
  "bigint_le i (SInt j) = (i \<le> j)"
| "bigint_le i SNull = (i \<le> 0)"
| "bigint_le i (SText s) = (case BigInt s of None \<Rightarrow> False | Some j \<Rightarrow> i \<le> j)"
| "bigint_le i (SBlob b) = False"

definition notMoreRecent :: "ObjectStatements \<Rightarrow> sqlobj \<Rightarrow> snapshot_tables \<Rightarrow> error + bool" where
  "notMoreRecent statements object db =
     (case toBigInt (object ''_timestamp'') of
        Inl e \<Rightarrow> Inl e
      | Inr t \<Rightarrow>
          (case getTimestamp statements object db of
             Inl e \<Rightarrow> Inl e
           | Inr None \<Rightarrow> Inl TypeError
           | Inr (Some row) \<Rightarrow> Inr (bigint_le t (arg row ''_timestamp''))))"

text \<open>
  \<open>addSnapshot(statements, object, partial, checkIfChanged)\<close>. The result pairs what the
  call returns or throws with the tables it leaves. \<open>recordSnapshot\<close> is the part after the
  first \<open>if\<close> (from \<open>if (checkIfChanged && \<dots>)\<close> on), which both branches reach; \<open>&&\<close>
  does not run the statement on its right when \<open>checkIfChanged\<close> is false.
\<close>

definition recordSnapshot ::
  "ObjectStatements \<Rightarrow> sqlobj \<Rightarrow> bool \<Rightarrow> snapshot_tables
     \<Rightarrow> (error + AddSnapshotResult) \<times> snapshot_tables" where
  "recordSnapshot statements object checkIfChanged db =
     (case (if checkIfChanged then isLatestSnapshotEqual statements object db else Inr None) of
        Inl e \<Rightarrow> (Inl e, db)
      | Inr (Some _) \<Rightarrow> (Inr SAME_AS_LATEST, db)
      | Inr None \<Rightarrow>
          (case (if checkIfChanged then notMoreRecent statements object db else Inr False) of
             Inl e \<Rightarrow> (Inl e, db)
           | Inr True \<Rightarrow> (Inl NotMoreRecent, db)
           | Inr False \<Rightarrow>
               (case copyLatestSnapshot statements object db of
                  Inl e \<Rightarrow> (Inl e, db)
                | Inr db1 \<Rightarrow>
                    (case replaceLatestSnapshot statements object db1 of
                       Inl e \<Rightarrow> (Inl e, db1)
                     | Inr db2 \<Rightarrow> (Inr ADDED_ANOTHER_SNAPSHOT, db2)))))"

definition addSnapshot ::
  "ObjectStatements \<Rightarrow> sqlobj \<Rightarrow> bool \<Rightarrow> bool \<Rightarrow> snapshot_tables
     \<Rightarrow> (error + AddSnapshotResult) \<times> snapshot_tables" where
  "addSnapshot statements object partial checkIfChanged db =
     (if partial then
        (let object1 = object(''$getAll'' \<mapsto> SInt 0) in
         case getLatestSnapshot statements object1 db of
           Inl e \<Rightarrow> (Inl e, db)
         | Inr None \<Rightarrow>
             (case addLatestSnapshot statements object1 db of
                Inr db1 \<Rightarrow> (Inr ADDED_FIRST_SNAPSHOT, db1)
              | Inl (MissingNamedParameter p) \<Rightarrow> (Inr PARTIAL_NO_SNAPSHOT, db)
              | Inl e \<Rightarrow> (Inl e, db))
         | Inr (Some oldObject) \<Rightarrow>
             recordSnapshot statements (oldObject ++ object1) checkIfChanged db)
      else
        (case doesExist statements object db of
           Inl e \<Rightarrow> (Inl e, db)
         | Inr None \<Rightarrow>
             (case addLatestSnapshot statements object db of
                Inl e \<Rightarrow> (Inl e, db)
              | Inr db1 \<Rightarrow> (Inr ADDED_FIRST_SNAPSHOT, db1))
         | Inr (Some _) \<Rightarrow> recordSnapshot statements object checkIfChanged db))"

text \<open>
  Notions used to state the results. An object is well formed for a full add when it has a
  value for every placeholder of the insert statement and its id is not \<open>NULL\<close>.
  \<open>latestRow\<close> is the stored row of the object's id, \<open>sameAsLatest\<close> says that the stored
  row carries the object's monitored fields, and \<open>mergedObject\<close> is the object whose
  snapshot is recorded: for a partial add, the stored row overlaid with the given properties.
\<close>

definition wellFormed :: "string list \<Rightarrow> string list \<Rightarrow> sqlobj \<Rightarrow> bool" where
  "wellFormed snapshotKeys objectKeys obj =
     (list_all (\<lambda>p. obj p \<noteq> None) (''id'' # objectKeys @ ''_timestamp'' # snapshotKeys)
      \<and> arg obj ''id'' \<noteq> SNull)"

definition latestRow :: "sqlobj \<Rightarrow> snapshot_tables \<Rightarrow> sqlobj option" where
  "latestRow obj db = find (idMatches obj) (latest db)"

definition sameAsLatest :: "string list \<Rightarrow> sqlobj \<Rightarrow> snapshot_tables \<Rightarrow> bool" where
  "sameAsLatest snapshotKeys obj db =
     (find (\<lambda>r. idMatches obj r \<and> snapshotEquals snapshotKeys obj r) (latest db) \<noteq> None)"

definition mergedObject :: "string list \<Rightarrow> string list \<Rightarrow> sqlobj \<Rightarrow> bool \<Rightarrow> snapshot_tables \<Rightarrow> sqlobj" where
  "mergedObject snapshotKeys objectKeys obj partial db =
     (if partial then
        (case latestRow obj db of
           None \<Rightarrow> obj
         | Some row \<Rightarrow>
             select (''id'' # ''_deleted'' # objectKeys @ ''_timestamp'' # snapshotKeys) row
               ++ obj(''$getAll'' \<mapsto> SInt 0))
      else obj)"

text \<open>
  Example data: an object type with one monitored field \<open>name\<close> and one fixed field
  \<open>bot\<close>; a table holding one object; that object as a request would encode it; the
  object renamed at the same time; the object renamed later.
\<close>

definition example_tables :: snapshot_tables where
  "example_tables = \<lparr>latest = [[''id'' \<mapsto> SInt 1, ''bot'' \<mapsto> SInt 0, ''_timestamp'' \<mapsto> SInt 10,
                       ''name'' \<mapsto> SText ''a'']],
           previous = []\<rparr>"

definition example_user :: sqlobj where
  "example_user = [''id'' \<mapsto> SInt 1, ''bot'' \<mapsto> SInt 0, ''_timestamp'' \<mapsto> SInt 10, ''name'' \<mapsto> SText ''a'']"

definition example_user_renamed :: sqlobj where
  "example_user_renamed = [''id'' \<mapsto> SInt 1, ''bot'' \<mapsto> SInt 0, ''_timestamp'' \<mapsto> SInt 10, ''name'' \<mapsto> SText ''b'']"

definition example_user_renamed_later :: sqlobj where
  "example_user_renamed_later = [''id'' \<mapsto> SInt 1, ''bot'' \<mapsto> SInt 0, ''_timestamp'' \<mapsto> SInt 20, ''name'' \<mapsto> SText ''b'']"

text \<open>
  The stored object at a later time, without a value for its monitored field \<open>name\<close>.
\<close>

definition example_user_unnamed_later :: sqlobj where
  "example_user_unnamed_later = [''id'' \<mapsto> SInt 1, ''bot'' \<mapsto> SInt 0, ''_timestamp'' \<mapsto> SInt 20]"

section \<open>Sync orchestrator: the message backfill of \<open>syncMessages\<close>\<close>

text \<open>
  A message as the backfill reads it: its id (the number the snowflake denotes) and its
  reactions (\<open>undefined\<close> and the empty array are both the empty list).
\<close>

record APIReaction =
  reaction_emoji :: APIPartialEmoji
  count_normal :: nat
  count_burst :: nat

record APIMessage =
  mid :: nat
  reactions :: "APIReaction list"

text \<open>
  The two REST requests of the backfill,
  \<open>/channels/C/messages?limit=L&after=A\<close> as \<open>GetMessages C L A\<close> and
  \<open>/channels/C/messages/M/reactions/E?limit=L&type=T&after=A\<close> as \<open>GetReactions C M E L T A\<close>,
  and what the loop reads of a result: whether the abort signal is set when the call
  returns, the status, and the parsed body.
\<close>

datatype rest_request =
    GetMessages nat nat nat
  | GetReactions nat nat APIPartialEmoji nat nat nat

record rest_response =
  aborted :: bool
  status :: nat
  messages :: "APIMessage list"
  users :: "nat list"

definition response_ok :: "rest_response \<Rightarrow> bool" where
  "response_ok response = (200 \<le> status response \<and> status response < 300)"

text \<open>
  The database requests of the backfill. \<open>reactionData\<close> is the local object the loop
  fills for each emoji and reaction type. \<open>rd_userIDs\<close> holds the users that were listed,
  in order; the array of the source is created with the expected count as its length, so
  it also keeps empty slots at its end when fewer users are listed than counted, which
  \<open>rd_userIDs\<close> does not record.
\<close>

record reactionData =
  rd_emoji :: APIPartialEmoji
  rd_reactionType :: nat
  rd_userIDs :: "nat list"

datatype db_request =
    ADD_MESSAGE_SNAPSHOT APIMessage
  | ADD_INITIAL_REACTIONS nat reactionData

text \<open>
  What the backfill runs against: the channel, the \<open>--no-reactions\<close> option, the platform
  (a function from requests to results), and the database writer (how it answers
  \<open>ADD_MESSAGE_SNAPSHOT\<close>, \<open>ADD_INITIAL_REACTIONS\<close> and \<open>GET_LAST_MESSAGE_ID\<close> for this
  channel, over a state of any type).
\<close>

record 'db environment =
  channel_id :: nat
  no_reactions :: bool
  api :: "rest_request \<Rightarrow> rest_response"
  addMessageSnapshot :: "APIMessage \<Rightarrow> 'db \<Rightarrow> (error + AddSnapshotResult) \<times> 'db"
  addInitialReactions :: "nat \<Rightarrow> reactionData \<Rightarrow> 'db \<Rightarrow> 'db"
  getLastMessageID :: "'db \<Rightarrow> nat option"

text \<open>
  Why the loop ended: the last page was shorter than the limit, the newest message of a
  page was already stored, the abort signal was set, a 403 or 404 left the operation
  waiting for its abort, another status that is not OK, or an error thrown through.
\<close>

datatype stop = Finished | KnownMessageFound | Aborted | Hanging nat | NotOk nat | Failed error

text \<open>
  The effects of a run so far: the REST requests made, the transactions issued (each
  request with the writer's answer), the writer's state, and the variable
  \<open>lastMessageAddPromise\<close>.
\<close>

record 'db run =
  requests :: "rest_request list"
  transactions :: "(db_request \<times> (error + AddSnapshotResult) option) list list"
  store :: 'db
  lastMessageAdd :: "(error + AddSnapshotResult) option"

text \<open>
  \<open>db.request\<close> and \<open>db.transaction\<close>: the requests of a transaction reach the writer in
  the order the callback issues them.
\<close>

fun request :: "'db environment \<Rightarrow> db_request \<Rightarrow> 'db run
                  \<Rightarrow> (db_request \<times> (error + AddSnapshotResult) option) \<times> 'db run" where
  "request env (ADD_MESSAGE_SNAPSHOT message) run =
     (let (result, db) = addMessageSnapshot env message (store run)
      in ((ADD_MESSAGE_SNAPSHOT message, Some result),
          run\<lparr>store := db, lastMessageAdd := Some result\<rparr>))"
| "request env (ADD_INITIAL_REACTIONS messageID rd) run =
     ((ADD_INITIAL_REACTIONS messageID rd, None),
      run\<lparr>store := addInitialReactions env messageID rd (store run)\<rparr>)"

fun issue :: "'db environment \<Rightarrow> db_request list \<Rightarrow> 'db run
                \<Rightarrow> (db_request \<times> (error + AddSnapshotResult) option) list \<times> 'db run" where
  "issue env [] run = ([], run)"
| "issue env (r # rs) run =
     (let (entry, run1) = request env r run;
          (entries, run2) = issue env rs run1
      in (entry # entries, run2))"

definition transaction :: "'db environment \<Rightarrow> db_request list \<Rightarrow> 'db run \<Rightarrow> 'db run" where
  "transaction env rs run =
     (let (entries, run1) = issue env rs run
      in run1\<lparr>transactions := transactions run1 @ [entries]\<rparr>)"

text \<open>
  \<open>flushMessagesWithoutReactions\<close>: the messages between \<open>startMWRIndex\<close> and \<open>i\<close>, in one
  transaction, from the highest index down; nothing when there is none.
\<close>

definition flushMessagesWithoutReactions ::
  "'db environment \<Rightarrow> APIMessage list \<Rightarrow> 'db run \<Rightarrow> 'db run" where
  "flushMessagesWithoutReactions env pending run =
     (if pending = [] then run else transaction env (map ADD_MESSAGE_SNAPSHOT pending) run)"

text \<open>
  The three nested loops that list the users of each reaction of a message: over the
  reactions, over the reaction types with a positive count (normal, then burst), and over
  the pages of users. A loop of pages can go on for ever, so it takes fuel; out of fuel is
  \<open>Inl None\<close>, and \<open>Inl (Some s)\<close> is \<open>break main\<close> or the wait for an abort.
\<close>

fun fetchReactionUsers ::
  "nat \<Rightarrow> 'db environment \<Rightarrow> nat \<Rightarrow> APIPartialEmoji \<Rightarrow> nat \<Rightarrow> nat \<Rightarrow> nat list \<Rightarrow> 'db run
     \<Rightarrow> (stop option + nat list) \<times> 'db run" where
  "fetchReactionUsers 0 env messageID e reactionType userID userIDs run = (Inl None, run)"
| "fetchReactionUsers (Suc fuel) env messageID e reactionType userID userIDs run =
     (let req = GetReactions (channel_id env) messageID e 100 reactionType userID;
          response = api env req;
          run1 = run\<lparr>requests := requests run @ [req]\<rparr>
      in if aborted response then (Inl (Some Aborted), run1)
         else if status response = 403 \<or> status response = 404
           then (Inl (Some (Hanging (status response))), run1)
         else if \<not> response_ok response then (Inl (Some (NotOk (status response))), run1)
         else if length (users response) < 100 then (Inr (userIDs @ users response), run1)
         else fetchReactionUsers fuel env messageID e reactionType (last (users response))
                (userIDs @ users response) run1)"

fun fetchReactionTypes ::
  "nat \<Rightarrow> 'db environment \<Rightarrow> nat \<Rightarrow> APIPartialEmoji \<Rightarrow> nat list \<Rightarrow> 'db run
     \<Rightarrow> (stop option + reactionData list) \<times> 'db run" where
  "fetchReactionTypes fuel env messageID e [] run = (Inr [], run)"
| "fetchReactionTypes fuel env messageID e (reactionType # types) run =
     (case fetchReactionUsers fuel env messageID e reactionType 0 [] run of
        (Inl s, run1) \<Rightarrow> (Inl s, run1)
      | (Inr userIDs, run1) \<Rightarrow>
          (case fetchReactionTypes fuel env messageID e types run1 of
             (Inl s, run2) \<Rightarrow> (Inl s, run2)
           | (Inr others, run2) \<Rightarrow>
               (Inr (\<lparr>rd_emoji = e, rd_reactionType = reactionType, rd_userIDs = userIDs\<rparr> # others),
                run2)))"

fun fetchReactions ::
  "nat \<Rightarrow> 'db environment \<Rightarrow> nat \<Rightarrow> APIReaction list \<Rightarrow> 'db run
     \<Rightarrow> (stop option + reactionData list) \<times> 'db run" where
  "fetchReactions fuel env messageID [] run = (Inr [], run)"
| "fetchReactions fuel env messageID (reaction # rs) run =
     (case fetchReactionTypes fuel env messageID (reaction_emoji reaction)
             ((if count_normal reaction > 0 then [0] else [])
              @ (if count_burst reaction > 0 then [1] else [])) run of
        (Inl s, run1) \<Rightarrow> (Inl s, run1)
      | (Inr rds, run1) \<Rightarrow>
          (case fetchReactions fuel env messageID rs run1 of
             (Inl s, run2) \<Rightarrow> (Inl s, run2)
           | (Inr others, run2) \<Rightarrow> (Inr (rds @ others), run2)))"

text \<open>
  The \<open>for (i = messages.length - 1; i >= 0; i--)\<close> loop over one page, followed by the
  last flush. The page arrives newest first and the loop walks it from the last index to
  the first, so the function takes the page reversed; \<open>pending\<close> holds the messages from
  \<open>startMWRIndex\<close> down to the current index. The result is \<open>Some s\<close> when the loop over the
  pages is left from inside.
\<close>

fun addMessages ::
  "nat \<Rightarrow> 'db environment \<Rightarrow> APIMessage list \<Rightarrow> APIMessage list \<Rightarrow> 'db run
     \<Rightarrow> stop option option \<times> 'db run" where
  "addMessages fuel env [] pending run = (None, flushMessagesWithoutReactions env pending run)"
| "addMessages fuel env (message # older_first) pending run =
     (if \<not> no_reactions env \<and> reactions message \<noteq> [] then
        (let run1 = flushMessagesWithoutReactions env pending run in
         case fetchReactions fuel env (mid message) (reactions message) run1 of
           (Inl s, run2) \<Rightarrow> (Some s, run2)
         | (Inr rds, run2) \<Rightarrow>
             addMessages fuel env older_first []
               (transaction env
                  (ADD_MESSAGE_SNAPSHOT message # map (ADD_INITIAL_REACTIONS (mid message)) rds) run2))
      else addMessages fuel env older_first (pending @ [message]) run)"

text \<open>
  One turn of the \<open>while (true)\<close> loop: the request, the tests on its result, the page,
  and the two tests that end the loop. \<open>syncLoop\<close> is the loop, with fuel for the number of
  pages; \<open>None\<close> means the fuel ran out.
\<close>

datatype step = Continue nat | Stop "stop option"

definition syncPage :: "nat \<Rightarrow> 'db environment \<Rightarrow> nat \<Rightarrow> 'db run \<Rightarrow> step \<times> 'db run" where
  "syncPage fuel env messageID run =
     (let req = GetMessages (channel_id env) 100 messageID;
          response = api env req;
          run1 = run\<lparr>requests := requests run @ [req]\<rparr>
      in if aborted response then (Stop (Some Aborted), run1)
         else if status response = 403 \<or> status response = 404
           then (Stop (Some (Hanging (status response))), run1)
         else if \<not> response_ok response then (Stop (Some (NotOk (status response))), run1)
         else if messages response \<noteq> [] then
           (case addMessages fuel env (rev (messages response)) [] run1 of
              (Some s, run2) \<Rightarrow> (Stop s, run2)
            | (None, run2) \<Rightarrow>
                (case lastMessageAdd run2 of
                   None \<Rightarrow> (Stop (Some (Failed TypeError)), run2)
                 | Some (Inl e) \<Rightarrow> (Stop (Some (Failed e)), run2)
                 | Some (Inr result) \<Rightarrow>
                     if result \<noteq> ADDED_FIRST_SNAPSHOT then (Stop (Some KnownMessageFound), run2)
                     else if length (messages response) < 100 then (Stop (Some Finished), run2)
                     else (Continue (mid (hd (messages response))), run2)))
         else (Stop (Some Finished), run1))"

fun syncLoop :: "nat \<Rightarrow> nat \<Rightarrow> 'db environment \<Rightarrow> nat \<Rightarrow> 'db run \<Rightarrow> stop option \<times> 'db run" where
  "syncLoop 0 fuel env messageID run = (None, run)"
| "syncLoop (Suc n) fuel env messageID run =
     (case syncPage fuel env messageID run of
        (Stop s, run1) \<Rightarrow> (s, run1)
      | (Continue messageID1, run1) \<Rightarrow> syncLoop n fuel env messageID1 run1)"

text \<open>
  \<open>syncMessages\<close> from the query for the last stored id to the end of the loop. Entering
  and leaving the registry of ongoing syncs is modelled with the registries below; the
  progress display and the waits for the rate limit are not modelled.
\<close>

datatype sync_outcome = NothingToSync | Synced "stop option"

definition syncMessages ::
  "nat \<Rightarrow> nat \<Rightarrow> 'db environment \<Rightarrow> nat option \<Rightarrow> 'db \<Rightarrow> sync_outcome \<times> 'db run" where
  "syncMessages pages fuel env lastMessageID db =
     (let lastStoredMessageID = getLastMessageID env db;
          run = \<lparr>requests = [], transactions = [], store = db, lastMessageAdd = None\<rparr>
      in if lastMessageID = None \<or> lastStoredMessageID = None
            \<or> the lastStoredMessageID < the lastMessageID
         then (let (s, run1) = syncLoop pages fuel env
                                 (case lastStoredMessageID of None \<Rightarrow> 0 | Some i \<Rightarrow> i) run
               in (Synced s, run1))
         else (NothingToSync, run))"

text \<open>
  Notions used to state the results: the messages a list of requests adds; the answered
  \<open>ADD_MESSAGE_SNAPSHOT\<close> requests of a log; the messages and ids a run has inserted, in
  order; the answer \<open>lastMessageAddPromise\<close> holds after some requests; a run in which that
  variable is the answer to the last insertion; a page as the platform returns it for
  \<open>after\<close> (newest first, ids strictly descending, all above \<open>after\<close>); a run that only made
  further REST requests; a run whose inserted ids ascend and stay below a bound; a run
  that extends the requests of another.
\<close>

definition addedMessages :: "db_request list \<Rightarrow> APIMessage list" where
  "addedMessages rs = concat (map (\<lambda>r. case r of ADD_MESSAGE_SNAPSHOT m \<Rightarrow> [m] | _ \<Rightarrow> []) rs)"

definition messageResults ::
  "(db_request \<times> (error + AddSnapshotResult) option) list
     \<Rightarrow> (APIMessage \<times> (error + AddSnapshotResult)) list" where
  "messageResults entries =
     concat (map (\<lambda>(r, result).
                    case r of
                      ADD_MESSAGE_SNAPSHOT m \<Rightarrow> (case result of None \<Rightarrow> [] | Some x \<Rightarrow> [(m, x)])
                    | ADD_INITIAL_REACTIONS i rd \<Rightarrow> []) entries)"

definition insertedMessages :: "'db run \<Rightarrow> APIMessage list" where
  "insertedMessages run = map fst (messageResults (concat (transactions run)))"

definition insertedIDs :: "'db run \<Rightarrow> nat list" where
  "insertedIDs run = map mid (insertedMessages run)"

definition latestAnswer ::
  "(APIMessage \<times> (error + AddSnapshotResult)) list \<Rightarrow> (error + AddSnapshotResult) option
     \<Rightarrow> (error + AddSnapshotResult) option" where
  "latestAnswer results before = (case results of [] \<Rightarrow> before | x # xs \<Rightarrow> Some (snd (last (x # xs))))"

definition answered :: "'db run \<Rightarrow> bool" where
  "answered run = (lastMessageAdd run = latestAnswer (messageResults (concat (transactions run))) None)"

definition pageOrdered :: "nat \<Rightarrow> APIMessage list \<Rightarrow> bool" where
  "pageOrdered after page =
     (sorted_wrt (\<lambda>a b. mid b < mid a) page \<and> list_all (\<lambda>m. after < mid m) page)"

definition onlyRequests :: "'db run \<Rightarrow> 'db run \<Rightarrow> bool" where
  "onlyRequests run run' =
     (transactions run' = transactions run \<and> store run' = store run
      \<and> lastMessageAdd run' = lastMessageAdd run
      \<and> (\<exists>rs. requests run' = requests run @ rs))"

definition ascendingUpTo :: "nat \<Rightarrow> 'db run \<Rightarrow> bool" where
  "ascendingUpTo bound run =
     (sorted_wrt (<) (insertedIDs run) \<and> list_all (\<lambda>i. i \<le> bound) (insertedIDs run))"

definition extended :: "'db run \<Rightarrow> 'db run \<Rightarrow> bool" where
  "extended run run' = (\<exists>rs. requests run' = requests run @ rs)"

text \<open>
  Example data: a channel with three messages, the second with one reaction, served by a
  platform that answers every request with 200; a writer that keeps the list of stored
  ids; and a platform whose answer, a full page of a hundred messages, arrives with the
  abort signal set.
\<close>

definition example_messages :: "APIMessage list" where
  "example_messages =
     [\<lparr>mid = 3, reactions = []\<rparr>,
      \<lparr>mid = 2, reactions = [\<lparr>reaction_emoji = \<lparr>emoji_id = None, emoji_name = ''x''\<rparr>,
                                count_normal = 1, count_burst = 0\<rparr>]\<rparr>,
      \<lparr>mid = 1, reactions = []\<rparr>]"

definition example_env :: "nat list environment" where
  "example_env =
     \<lparr>channel_id = 1, no_reactions = False,
      api = (\<lambda>req. case req of
                GetMessages channel limit after \<Rightarrow>
                  \<lparr>aborted = False, status = 200,
                   messages = filter (\<lambda>m. after < mid m) example_messages, users = []\<rparr>
              | GetReactions channel message e limit reactionType after \<Rightarrow>
                  \<lparr>aborted = False, status = 200, messages = [], users = [7]\<rparr>),
      addMessageSnapshot = (\<lambda>m db. if mid m \<in> set db then (Inr SAME_AS_LATEST, db)
                                  else (Inr ADDED_FIRST_SNAPSHOT, db @ [mid m])),
      addInitialReactions = (\<lambda>i rd db. db),
      getLastMessageID = (\<lambda>db. case db of [] \<Rightarrow> None | x # xs \<Rightarrow> Some (fold max xs x))\<rparr>"

definition aborting_env :: "nat list environment" where
  "aborting_env =
     example_env\<lparr>api := (\<lambda>req. \<lparr>aborted = True, status = 200,
                                messages = map (\<lambda>i. \<lparr>mid = i, reactions = []\<rparr>) (rev [1 ..< 101]),
                                users = []\<rparr>)\<rparr>"

section \<open>Sync orchestrator: channel permissions\<close>

text \<open>
  The cache of \<open>cache.ts\<close>, as far as the permission sets read it. An account is named by
  a string; a JavaScript \<open>Map\<close> is an association list in insertion order whose keys are
  distinct; a \<open>Set\<close> of accounts is a set. A cached channel carries its overwrites (role or
  member id to an allow and a deny mask) and the two account sets, which the type documents
  as the accounts with \<open>READ_MESSAGE_HISTORY\<close> and \<open>VIEW_CHANNEL\<close>, and with
  \<open>READ_MESSAGE_HISTORY\<close>, \<open>MANAGE_THREADS\<close> and \<open>VIEW_CHANNEL\<close>; a cached guild carries
  its id (which is also the id of the @everyone role), its owner, the permissions of its
  roles, the record of each account that is a member, and its text channels.
\<close>

type_synonym account = string

record Overwrite =
  allow :: int
  deny :: int

record GuildAccountData =
  roles :: "string list"
  guildPermissions :: int

record CachedChannel =
  cached_id :: string
  cached_type :: nat
  cached_name :: string
  permissionOverwrites :: "(string \<times> Overwrite) list"
  accountsWithReadPermission :: "account set"
  accountsWithManageThreadsPermission :: "account set"

record CachedGuild =
  guild_id :: string
  ownerID :: string
  rolePermissions :: "(string \<times> int) list"
  accountData :: "(account \<times> GuildAccountData) list"
  textChannels :: "(string \<times> CachedChannel) list"

text \<open>
  The permission bits of the platform that the cache names
  (\<open>DBT.PermissionFlagsBits\<close>): bit 3, bit 10, bit 16 and bit 34.
\<close>

definition Administrator :: int where "Administrator = push_bit 3 1"
definition ReadMessageHistory :: int where "ReadMessageHistory = push_bit 16 1"
definition ManageThreads :: int where "ManageThreads = push_bit 34 1"

text \<open>
  Modelled from the spec: \<open>permissions.ts\<close> is not among the sources, so
  \<open>computeGuildPermissions\<close>, \<open>computeChannelPermissions\<close> and \<open>hasChannelPermissions\<close> follow
  the description of the permission module. The guild permissions are the OR of the role
  permission bitfields, all-ones when the administrator bit is set or the account is the
  owner. The channel permissions start from the guild permissions and apply the overwrite
  of @everyone, then the overwrites of the roles of the account (the deny masks OR'd, then
  the allow masks OR'd), then the overwrite of the member. The test is
  \<open>(computed & required) == required\<close>.
\<close>

definition computeGuildPermissions :: "account \<Rightarrow> CachedGuild \<Rightarrow> string list \<Rightarrow> int" where
  "computeGuildPermissions account guild roleIDs =
     (let permissions =
            fold (\<lambda>role p. case map_of (rolePermissions guild) role of
                               None \<Rightarrow> p | Some q \<Rightarrow> p OR q) roleIDs 0
      in if ownerID guild = account \<or> permissions AND Administrator \<noteq> 0 then - 1
         else permissions)"

definition applyOverwrite :: "int \<Rightarrow> int \<Rightarrow> int \<Rightarrow> int" where
  "applyOverwrite permissions denied allowed = (permissions AND NOT denied) OR allowed"

definition computeChannelPermissions ::
  "account \<Rightarrow> CachedGuild \<Rightarrow> CachedChannel \<Rightarrow> GuildAccountData \<Rightarrow> int" where
  "computeChannelPermissions account guild channel data =
     (let overwrites = map_of (permissionOverwrites channel);
          p0 = guildPermissions data;
          p1 = (case overwrites (guild_id guild) of
                  None \<Rightarrow> p0
                | Some ow \<Rightarrow> applyOverwrite p0 (deny ow) (allow ow));
          roleOverwrites = List.map_filter overwrites (roles data);
          p2 = applyOverwrite p1 (fold (\<lambda>ow d. d OR deny ow) roleOverwrites 0)
                                 (fold (\<lambda>ow a. a OR allow ow) roleOverwrites 0);
          p3 = (case overwrites account of
                  None \<Rightarrow> p2
                | Some ow \<Rightarrow> applyOverwrite p2 (deny ow) (allow ow))
      in p3)"

definition hasChannelPermissions :: "int \<Rightarrow> int \<Rightarrow> bool" where
  "hasChannelPermissions computed required = (computed AND required = required)"

text \<open>
  \<open>updateGuildChannelPermissions\<close>, the loop over the account records of the guild. For
  each account it computes the channel permissions, adds the account to the read set when
  it has \<open>ReadMessageHistory\<close> and removes it otherwise (remembering that it lost the
  permission when it was in the set), and does the same for the manage-threads set, whose
  removal branch tests the read set as the source does. The second half of the function,
  which aborts and respawns syncs for the accounts that lost a permission, reads only the
  two sets of accounts that the loop returns.
\<close>

record permissionUpdate =
  updated :: CachedChannel
  accountsThatLostReadPermission :: "account set"
  accountsThatLostManageThreadsPermission :: "account set"

definition updateAccount ::
  "CachedGuild \<Rightarrow> account \<times> GuildAccountData \<Rightarrow> permissionUpdate \<Rightarrow> permissionUpdate" where
  "updateAccount guild entry u =
     (let account = fst entry;
          permissions = computeChannelPermissions account guild (updated u) (snd entry);
          hasReadPermission = hasChannelPermissions permissions ReadMessageHistory;
          hasManageThreadsPermission =
            (hasReadPermission \<and> hasChannelPermissions permissions ManageThreads);
          u1 = (if hasReadPermission then
                  u\<lparr>updated := (updated u)\<lparr>accountsWithReadPermission :=
                                   insert account (accountsWithReadPermission (updated u))\<rparr>\<rparr>
                else if account \<in> accountsWithReadPermission (updated u) then
                  u\<lparr>updated := (updated u)\<lparr>accountsWithReadPermission :=
                                   accountsWithReadPermission (updated u) - {account}\<rparr>,
                    accountsThatLostReadPermission :=
                      insert account (accountsThatLostReadPermission u)\<rparr>
                else u)
      in if hasManageThreadsPermission then
           u1\<lparr>updated := (updated u1)\<lparr>accountsWithManageThreadsPermission :=
                             insert account (accountsWithManageThreadsPermission (updated u1))\<rparr>\<rparr>
         else if account \<in> accountsWithReadPermission (updated u1) then
           u1\<lparr>updated := (updated u1)\<lparr>accountsWithManageThreadsPermission :=
                             accountsWithManageThreadsPermission (updated u1) - {account}\<rparr>,
              accountsThatLostManageThreadsPermission :=
                insert account (accountsThatLostManageThreadsPermission u1)\<rparr>
         else u1)"

definition updateGuildChannelPermissions :: "CachedGuild \<Rightarrow> CachedChannel \<Rightarrow> permissionUpdate" where
  "updateGuildChannelPermissions guild cachedChannel =
     fold (updateAccount guild) (accountData guild)
       \<lparr>updated = cachedChannel, accountsThatLostReadPermission = {},
        accountsThatLostManageThreadsPermission = {}\<rparr>"


section \<open>Sync orchestrator: the \<open>ChannelUpdate\<close> dispatch\<close>

text \<open>
  A channel as the gateway sends it. Channel types 0, 2, 5 and 15 (text, voice,
  announcement, forum) are the ones \<open>isChannelCacheable\<close> accepts. \<open>Map_set\<close> and \<open>Map_new\<close>
  are \<open>Map.prototype.set\<close> and \<open>new Map(entries)\<close> on association lists: setting an existing
  key keeps its position, a later entry of a duplicated key wins. \<open>createCachedChannel\<close>
  starts a cached channel with its overwrites and two empty account sets.
\<close>

record APIOverwrite =
  overwrite_id :: string
  overwrite_allow :: int
  overwrite_deny :: int

record APIChannel =
  api_id :: string
  api_type :: nat
  api_guild_id :: string
  api_name :: string
  permission_overwrites :: "APIOverwrite list option"

definition isChannelCacheable :: "APIChannel \<Rightarrow> bool" where
  "isChannelCacheable channel =
     (api_type channel = 5 \<or> api_type channel = 15 \<or> api_type channel = 0 \<or> api_type channel = 2)"

fun Map_set :: "'k \<Rightarrow> 'v \<Rightarrow> ('k \<times> 'v) list \<Rightarrow> ('k \<times> 'v) list" where
  "Map_set k v [] = [(k, v)]"
| "Map_set k v ((k', v') # m) = (if k' = k then (k, v) # m else (k', v') # Map_set k v m)"

definition Map_new :: "('k \<times> 'v) list \<Rightarrow> ('k \<times> 'v) list" where
  "Map_new entries = fold (\<lambda>(k, v). Map_set k v) entries []"

definition overwritesOf :: "APIChannel \<Rightarrow> (string \<times> Overwrite) list" where
  "overwritesOf channel =
     Map_new (map (\<lambda>ow. (overwrite_id ow, \<lparr>allow = overwrite_allow ow, deny = overwrite_deny ow\<rparr>))
                (case permission_overwrites channel of None \<Rightarrow> [] | Some os \<Rightarrow> os))"

definition createCachedChannel :: "APIChannel \<Rightarrow> CachedChannel" where
  "createCachedChannel channel =
     \<lparr>cached_id = api_id channel, cached_type = api_type channel, cached_name = api_name channel,
      permissionOverwrites = overwritesOf channel,
      accountsWithReadPermission = {}, accountsWithManageThreadsPermission = {}\<rparr>"

text \<open>
  Modelled from the spec: \<open>util/map-equality.ts\<close> is not among the sources; \<open>areMapsEqual\<close>
  is equality of two maps under a comparison of values: the same number of entries, and
  every key of the first bound in the second to an equal value.
\<close>

definition areMapsEqual ::
  "('k \<times> 'v) list \<Rightarrow> ('k \<times> 'v) list \<Rightarrow> ('v \<Rightarrow> 'v \<Rightarrow> bool) \<Rightarrow> bool" where
  "areMapsEqual a b eq =
     (length a = length b
      \<and> list_all (\<lambda>(k, v). case map_of b k of None \<Rightarrow> False | Some w \<Rightarrow> eq v w) a)"

text \<open>
  The \<open>ChannelUpdate\<close> case of the dispatch handler, on the cache (the database request it
  issues first does not touch the cache). For a cacheable channel of a known guild it
  renames the cached channel, builds the incoming overwrite map, calls \<open>areMapsEqual\<close> on
  the cached overwrites and the cached overwrites, and when the call returns true replaces
  the overwrites and runs \<open>updateGuildChannelPermissions\<close>.
\<close>

definition channelUpdate ::
  "APIChannel \<Rightarrow> (string \<times> CachedGuild) list \<Rightarrow> (string \<times> CachedGuild) list" where
  "channelUpdate channel guilds =
     (if isChannelCacheable channel then
        (case map_of guilds (api_guild_id channel) of
           None \<Rightarrow> guilds
         | Some cachedGuild \<Rightarrow>
             (case map_of (textChannels cachedGuild) (api_id channel) of
                None \<Rightarrow> guilds
              | Some cachedChannel \<Rightarrow>
                  (let renamed = cachedChannel\<lparr>cached_name := api_name channel\<rparr>;
                       newOverwrites = overwritesOf channel;
                       didPermsChange =
                         areMapsEqual (permissionOverwrites renamed) (permissionOverwrites renamed)
                           (\<lambda>a b. allow a = allow b \<and> deny a = deny b);
                       result =
                         (if didPermsChange then
                            updated (updateGuildChannelPermissions cachedGuild
                                       (renamed\<lparr>permissionOverwrites := newOverwrites\<rparr>))
                          else renamed)
                   in Map_set (api_guild_id channel)
                        (cachedGuild\<lparr>textChannels :=
                           Map_set (api_id channel) result (textChannels cachedGuild)\<rparr>)
                        guilds)))
      else guilds)"

text \<open>
  Example data: a guild with a role \<open>r1\<close> that grants \<open>ReadMessageHistory\<close>, an account \<open>a1\<close>
  with that role and an account \<open>a2\<close> without roles, and a text channel \<open>c1\<close> as a
  \<open>ChannelCreate\<close> dispatch caches it, with an empty overwrite for @everyone.
\<close>

definition example_channel :: APIChannel where
  "example_channel =
     \<lparr>api_id = ''c1'', api_type = 0, api_guild_id = ''g1'', api_name = ''general'',
      permission_overwrites =
        Some [\<lparr>overwrite_id = ''g1'', overwrite_allow = 0, overwrite_deny = 0\<rparr>]\<rparr>"

definition example_guild :: CachedGuild where
  "example_guild =
     \<lparr>guild_id = ''g1'', ownerID = ''u0'',
      rolePermissions = [(''g1'', 0), (''r1'', ReadMessageHistory)],
      accountData =
        [(''a1'', \<lparr>roles = [''r1''],
                   guildPermissions =
                     computeGuildPermissions ''a1''
                       \<lparr>guild_id = ''g1'', ownerID = ''u0'',
                        rolePermissions = [(''g1'', 0), (''r1'', ReadMessageHistory)],
                        accountData = [], textChannels = []\<rparr> [''r1'']\<rparr>),
         (''a2'', \<lparr>roles = [], guildPermissions = 0\<rparr>)],
      textChannels = [(''c1'', createCachedChannel example_channel)]\<rparr>"

definition example_guilds :: "(string \<times> CachedGuild) list" where
  "example_guilds = [(''g1'', example_guild)]"

definition cachedChannelOf :: "(string \<times> CachedGuild) list \<Rightarrow> string \<Rightarrow> string \<Rightarrow> CachedChannel option" where
  "cachedChannelOf guilds guildID channelID =
     (case map_of guilds guildID of None \<Rightarrow> None
      | Some g \<Rightarrow> map_of (textChannels g) channelID)"


section \<open>Sync orchestrator: the registries of ongoing message syncs\<close>


























section \<open>Results\<close>

subsection \<open>Backoff of \<open>apiReq\<close>\<close>

text \<open>
  C4. The claim is that the waits between retries are 0, 2000, 4000, \<dots>, never above
  60000. The loop updates the interval with \<open>Math.max(interval + 2_000, 60_000)\<close>, so after
  three server errors in a row the waits are 0, 60000 and 62000 milliseconds: the second
  wait is already 60000 and the third exceeds the cap.
\<close>

theorem apiReq_three_failures_waits:
  "apiReq [(Response 503, False), (Response 503, False), (NetworkError, False), (Response 200, False)]
     = ([0, 60000, 62000], Returned 200)"
  by (simp add: apiReq_def)

subsection \<open>Removing reactions\<close>

text \<open>
  C8. The claim is that a bulk removal with an emoji closes only the open rows of the
  message with that emoji. The handler runs \<open>markReactionsAsRemovedByMessage\<close> in both
  branches, and that statement has no \<open>:emoji\<close> placeholder, so the open row of another
  emoji on the same message is closed as well.
\<close>

theorem bulk_removal_with_emoji_closes_other_emojis:
  "handle_reaction_request
     (MARK_REACTIONS_AS_REMOVED_BULK 7 (Some \<lparr>emoji_id = None, emoji_name = ''A''\<rparr>)
        \<lparr>timestamp = 1000, realtime = True\<rparr>)
     [\<lparr>message_id = SInt 7, emoji = SText ''A'', rtype = SInt 0, user_id = SInt 1,
        rstart = SInt 0, rend = SNull\<rparr>,
      \<lparr>message_id = SInt 7, emoji = SText ''B'', rtype = SInt 0, user_id = SInt 2,
        rstart = SInt 0, rend = SNull\<rparr>]
   = Inr
     [\<lparr>message_id = SInt 7, emoji = SText ''A'', rtype = SInt 0, user_id = SInt 1,
        rstart = SInt 0, rend = SInt 2001\<rparr>,
      \<lparr>message_id = SInt 7, emoji = SText ''B'', rtype = SInt 0, user_id = SInt 2,
        rstart = SInt 0, rend = SInt 2001\<rparr>]"
  by (simp add: markReactionsAsRemovedByMessage_def arg_def encodeTiming_def)

subsection \<open>Arrays of snowflakes\<close>

lemma length_be_bytes: "length (be_bytes k n) = k"
  by (induction k arbitrary: n) auto

lemma be_value_snoc: "be_value (bs @ [b]) = 256 * be_value bs + unat b"
  by (simp add: be_value_def)

lemma be_value_be_bytes: "be_value (be_bytes k n) = n mod 256 ^ k"
proof (induction k arbitrary: n)
  case 0
  show ?case by (simp add: be_value_def)
next
  case (Suc k)
  have u: "unat (of_nat (n mod 256) :: 8 word) = n mod 256"
    by (simp add: unat_of_nat)
  have "be_value (be_bytes (Suc k) n) = 256 * ((n div 256) mod 256 ^ k) + n mod 256"
    by (simp add: be_value_snoc Suc.IH u)
  also have "\<dots> = n mod 256 ^ Suc k"
    by (simp add: mod_mult2_eq)
  finally show ?case .
qed

lemma is_digit_char_of_digit: "d < 10 \<Longrightarrow> is_digit (char_of_digit d)"
  by (simp add: is_digit_def char_of_digit_def)

lemma digit_of_char_of_digit: "d < 10 \<Longrightarrow> digit_of_char (char_of_digit d) = d"
  by (simp add: digit_of_char_def char_of_digit_def)

lemma char_of_digit_of_char: "is_digit c \<Longrightarrow> char_of_digit (digit_of_char c) = c"
  by (simp add: is_digit_def digit_of_char_def char_of_digit_def)

lemma char_of_digit_zero: "char_of_digit 0 = CHR ''0''"
  by code_simp

lemma digit_of_char_less: "is_digit c \<Longrightarrow> digit_of_char c < 10"
  by (auto simp add: is_digit_def digit_of_char_def)

lemma decimal_value_snoc: "decimal_value (s @ [c]) = 10 * decimal_value s + digit_of_char c"
  by (simp add: decimal_value_def)

lemma decimal_digits_all_digits: "list_all is_digit (decimal_digits n)"
proof (induction n rule: decimal_digits.induct)
  case (1 n)
  show ?case
  proof (cases "n < 10")
    case True
    then show ?thesis by (subst decimal_digits.simps) (simp add: is_digit_char_of_digit)
  next
    case False
    then have "list_all is_digit (decimal_digits (n div 10))" using 1 by simp
    moreover have "is_digit (char_of_digit (n mod 10))" by (simp add: is_digit_char_of_digit)
    ultimately show ?thesis using False by (subst decimal_digits.simps) simp
  qed
qed

lemma decimal_digits_nonempty: "decimal_digits n \<noteq> []"
  by (subst decimal_digits.simps) simp

lemma decimal_value_decimal_digits: "decimal_value (decimal_digits n) = n"
proof (induction n rule: decimal_digits.induct)
  case (1 n)
  show ?case
  proof (cases "n < 10")
    case True
    then show ?thesis
      by (subst decimal_digits.simps) (simp add: decimal_value_def digit_of_char_of_digit)
  next
    case False
    then have "decimal_value (decimal_digits (n div 10)) = n div 10" using 1 by simp
    then show ?thesis using False
      by (subst decimal_digits.simps) (simp add: decimal_value_snoc digit_of_char_of_digit)
  qed
qed

lemma decimal_value_zero: "list_all is_digit s \<Longrightarrow> decimal_value s = 0 \<Longrightarrow> s \<noteq> [] \<Longrightarrow> hd s = CHR ''0''"
proof (induction s rule: rev_induct)
  case Nil
  then show ?case by simp
next
  case (snoc c s)
  from snoc.prems have z: "decimal_value s = 0" and dz: "digit_of_char c = 0"
    by (simp_all add: decimal_value_snoc)
  show ?case
  proof (cases "s = []")
    case True
    from snoc.prems have "is_digit c" by simp
    then have "char_of_digit (digit_of_char c) = c" by (rule char_of_digit_of_char)
    then have "c = CHR ''0''" using dz by (simp add: char_of_digit_zero)
    then show ?thesis using True by simp
  next
    case False
    then show ?thesis using snoc z by simp
  qed
qed

lemma decimal_digits_decimal_value: "canonical_decimal s \<Longrightarrow> decimal_digits (decimal_value s) = s"
proof (induction s rule: rev_induct)
  case Nil
  then show ?case by (simp add: canonical_decimal_def)
next
  case (snoc c s)
  from snoc.prems have dc: "is_digit c" and ds: "list_all is_digit s"
    by (simp_all add: canonical_decimal_def)
  show ?case
  proof (cases "s = []")
    case True
    then show ?thesis using dc
      by (subst decimal_digits.simps) (simp add: decimal_value_def digit_of_char_less char_of_digit_of_char)
  next
    case False
    then have h: "hd (s @ [c]) = hd s" by simp
    have nz: "hd s \<noteq> CHR ''0''"
      using snoc.prems False h by (auto simp add: canonical_decimal_def)
    then have cs: "canonical_decimal s" using False ds by (simp add: canonical_decimal_def)
    have "decimal_value s \<noteq> 0" using decimal_value_zero [OF ds _ False] nz by blast
    then have big: "\<not> decimal_value (s @ [c]) < 10" by (simp add: decimal_value_snoc)
    have dv: "decimal_value (s @ [c]) div 10 = decimal_value s"
      and md: "decimal_value (s @ [c]) mod 10 = digit_of_char c"
      using digit_of_char_less [OF dc] by (simp_all add: decimal_value_snoc)
    show ?thesis
      using big by (subst decimal_digits.simps) (simp add: dv md snoc.IH [OF cs] char_of_digit_of_char [OF dc])
  qed
qed

lemma BigInt_digits: "s \<noteq> [] \<Longrightarrow> list_all is_digit s \<Longrightarrow> BigInt s = Some (int (decimal_value s))"
  by (cases s) (auto simp add: BigInt_def is_digit_def)

lemma String_nonneg: "0 \<le> v \<Longrightarrow> String v = decimal_digits (nat v)"
  by (simp add: String_def)

lemma getBigUint64_append:
  "length xs = 8 \<Longrightarrow> getBigUint64 (xs @ ys) (8 * Suc i) = getBigUint64 ys (8 * i)"
  by (simp add: getBigUint64_def)

lemma getBigUint64_setBigUint64: "getBigUint64 (setBigUint64 v @ ys) 0 = v mod 2 ^ 64"
  by (simp add: getBigUint64_def setBigUint64_def length_be_bytes be_value_be_bytes)

lemma length_setBigUint64: "length (setBigUint64 v) = 8"
  by (simp add: setBigUint64_def length_be_bytes)

lemma decode_cons:
  assumes "length xs = 8" and "length ys mod 8 = 0"
  shows "decodeSnowflakeArray (xs @ ys) =
         (case decodeSnowflakeArray ys of Inl e \<Rightarrow> Inl e
          | Inr rest \<Rightarrow> Inr (String (getBigUint64 (xs @ ys) 0) # rest))"
proof -
  have len: "length (xs @ ys) div 8 = Suc (length ys div 8)"
    using assms by simp
  have m: "length (xs @ ys) mod 8 = 0"
    using assms by simp
  have u: "[0 ..< Suc (length ys div 8)] = 0 # map Suc [0 ..< length ys div 8]"
    unfolding map_Suc_upt by (rule upt_conv_Cons) simp
  have g: "\<And>i. getBigUint64 (xs @ ys) (8 + 8 * i) = getBigUint64 ys (8 * i)"
    using getBigUint64_append [OF assms(1)] by simp
  have "decodeSnowflakeArray (xs @ ys) =
        Inr (map (\<lambda>i. String (getBigUint64 (xs @ ys) (8 * i))) (0 # map Suc [0 ..< length ys div 8]))"
    unfolding decodeSnowflakeArray_def len u using m by simp
  also have "\<dots> = Inr (String (getBigUint64 (xs @ ys) 0)
                      # map (\<lambda>i. String (getBigUint64 ys (8 * i))) [0 ..< length ys div 8])"
    by (simp add: g o_def del: upt_Suc)
  finally show ?thesis
    using assms(2) by (simp add: decodeSnowflakeArray_def)
qed

lemma encode_length:
  "encodeSnowflakeArray a = Inr bytes \<Longrightarrow> length bytes = 8 * length a"
  by (induction a arbitrary: bytes) (auto simp add: length_setBigUint64 split: option.splits sum.splits)


text \<open>
  C10, as amended. For every array of canonical decimal strings (no sign, no leading
  zero) of integers below \<open>2 ^ 64\<close>, encoding succeeds with eight bytes per element and
  decoding the result gives the array back. Whenever encoding succeeds it produces eight
  bytes per element, and decoding a buffer whose length is not a multiple of eight is a
  \<open>TypeError\<close>.
\<close>

theorem snowflake_array_roundtrip:
  assumes "list_all (\<lambda>s. canonical_decimal s \<and> decimal_value s < 2 ^ 64) a"
  shows "(\<exists>bytes. encodeSnowflakeArray a = Inr bytes \<and> length bytes = 8 * length a
            \<and> decodeSnowflakeArray bytes = Inr a)
       \<and> (\<forall>a' bytes'. encodeSnowflakeArray a' = Inr bytes' \<longrightarrow> length bytes' = 8 * length a')
       \<and> (\<forall>buf. length buf mod 8 \<noteq> 0 \<longrightarrow> decodeSnowflakeArray buf = Inl TypeError)"
proof -
  have "\<exists>bytes. encodeSnowflakeArray a = Inr bytes \<and> length bytes = 8 * length a
            \<and> decodeSnowflakeArray bytes = Inr a"
    using assms
  proof (induction a)
    case Nil
    show ?case by (simp add: decodeSnowflakeArray_def)
  next
    case (Cons s a)
    then obtain bytes where e: "encodeSnowflakeArray a = Inr bytes"
      and l: "length bytes = 8 * length a" and d: "decodeSnowflakeArray bytes = Inr a"
      by auto
    from Cons.prems have c: "canonical_decimal s" and b: "decimal_value s < 2 ^ 64" by simp_all
    from c have B: "BigInt s = Some (int (decimal_value s))"
      by (simp add: BigInt_digits canonical_decimal_def)
    have m: "int (decimal_value s) mod 2 ^ 64 = int (decimal_value s)"
      using b by simp
    have "getBigUint64 (setBigUint64 (int (decimal_value s)) @ bytes) 0 = int (decimal_value s)"
      by (simp only: getBigUint64_setBigUint64 m)
    then have "String (getBigUint64 (setBigUint64 (int (decimal_value s)) @ bytes) 0) = s"
      by (simp add: String_nonneg decimal_digits_decimal_value [OF c])
    then show ?case
      using e l d B by (simp add: decode_cons length_setBigUint64)
  qed
  moreover have "\<forall>a' bytes'. encodeSnowflakeArray a' = Inr bytes' \<longrightarrow> length bytes' = 8 * length a'"
    by (simp add: encode_length)
  moreover have "\<forall>buf. length buf mod 8 \<noteq> 0 \<longrightarrow> decodeSnowflakeArray buf = Inl TypeError"
    by (simp add: decodeSnowflakeArray_def)
  ultimately show ?thesis by blast
qed

theorem snowflake_array_roundtrip_witness:
  "canonical_decimal ''7'' \<and> decimal_value ''7'' < 2 ^ 64
   \<and> canonical_decimal ''18446744073709551615'' \<and> decimal_value ''18446744073709551615'' < 2 ^ 64
   \<and> (\<exists>bytes. encodeSnowflakeArray [''7'', ''18446744073709551615''] = Inr bytes
         \<and> length bytes = 16
         \<and> decodeSnowflakeArray bytes = Inr [''7'', ''18446744073709551615''])"
proof -
  have c1: "canonical_decimal ''7'' \<and> decimal_value ''7'' < 2 ^ 64"
    by (simp add: canonical_decimal_def is_digit_def decimal_value_def digit_of_char_def)
  have c2: "canonical_decimal ''18446744073709551615'' \<and> decimal_value ''18446744073709551615'' < 2 ^ 64"
    by (simp add: canonical_decimal_def is_digit_def decimal_value_def digit_of_char_def)
  have h: "list_all (\<lambda>s. canonical_decimal s \<and> decimal_value s < 2 ^ 64) [''7'', ''18446744073709551615'']"
    using c1 c2 by simp
  show ?thesis
    using c1 c2 snowflake_array_roundtrip [OF h] by simp
qed

text \<open>
  C10 as stated fails on a decimal string with leading zeros: \<open>''007''\<close> consists of decimal
  digits and denotes 7, which is below \<open>2 ^ 64\<close>, yet it comes back as \<open>''7''\<close>.
\<close>

theorem snowflake_array_roundtrip_counterexample:
  "list_all is_digit ''007'' \<and> decimal_value ''007'' < 2 ^ 64
   \<and> (case encodeSnowflakeArray [''007''] of Inl e \<Rightarrow> Inl e | Inr bytes \<Rightarrow> decodeSnowflakeArray bytes)
       = Inr [''7'']
   \<and> ''7'' \<noteq> ''007''"
proof -
  have "list_all is_digit ''007'' \<and> decimal_value ''007'' < 2 ^ 64"
    by (simp add: is_digit_def decimal_value_def digit_of_char_def)
  moreover have "(case encodeSnowflakeArray [''007''] of Inl e \<Rightarrow> Inl e
                  | Inr bytes \<Rightarrow> decodeSnowflakeArray bytes) = Inr [''7'']"
    by code_simp
  ultimately show ?thesis by simp
qed

subsection \<open>Adding snapshots\<close>

lemma bindParams_None: "bindParams ps obj = None \<longleftrightarrow> list_all (\<lambda>p. obj p \<noteq> None) ps"
  by (induction ps) (auto split: option.splits)

lemma query_bound: "list_all (\<lambda>p. obj p \<noteq> None) ps \<Longrightarrow> query ps obj x = Inr x"
  using bindParams_None [of ps obj] by (simp add: query_def)

lemma query_Inl: "query ps obj x = Inl e \<Longrightarrow> \<exists>p. e = MissingNamedParameter p"
proof (induction ps)
  case Nil
  then show ?case by (simp add: query_def)
next
  case (Cons p ps)
  then show ?case by (auto simp add: query_def split: option.splits)
qed

lemma select_in: "k \<in> set cols \<Longrightarrow> arg (select cols r) k = arg r k"
  by (simp add: select_def arg_def)

lemma add_first:
  assumes "wellFormed sk ok obj" and "latestRow obj db = None"
  shows "addSnapshot (getStatements sk ok) obj False True db =
           (Inr ADDED_FIRST_SNAPSHOT,
            db\<lparr>latest := latest db @ [select (''id'' # ok @ ''_timestamp'' # sk) obj]\<rparr>)"
  using assms
  by (simp add: addSnapshot_def getStatements_def query_bound wellFormed_def latestRow_def)

lemma add_same:
  assumes "wellFormed sk ok obj" and "latestRow obj db \<noteq> None" and "sameAsLatest sk obj db"
  shows "addSnapshot (getStatements sk ok) obj False True db = (Inr SAME_AS_LATEST, db)"
  using assms
  by (auto simp add: addSnapshot_def recordSnapshot_def getStatements_def query_bound wellFormed_def
        latestRow_def sameAsLatest_def)

lemma add_another:
  assumes "wellFormed sk ok obj" and "latestRow obj db = Some row" and "\<not> sameAsLatest sk obj db"
    and "obj ''_timestamp'' = Some (SInt t)" and "\<not> bigint_le t (arg row ''_timestamp'')"
  shows "addSnapshot (getStatements sk ok) obj False True db =
           (Inr ADDED_ANOTHER_SNAPSHOT,
            \<lparr>latest = map (\<lambda>r. if idMatches obj r then r ++ select (''_timestamp'' # sk) obj else r)
                         (latest db),
             previous = previous db
                  @ map (select (''id'' # ''_timestamp'' # sk)) (filter (idMatches obj) (latest db))\<rparr>)"
  using assms
  by (simp add: addSnapshot_def recordSnapshot_def notMoreRecent_def toBigInt_def getStatements_def
        query_bound wellFormed_def latestRow_def sameAsLatest_def select_def arg_def)

lemma inserted_row_matches:
  assumes "arg obj ''id'' \<noteq> SNull" and "''id'' \<in> set cols"
  shows "idMatches obj (select cols obj)"
  using assms by (simp add: idMatches_def sql_eq_def select_in)

lemma inserted_row_equals:
  assumes "set sk \<subseteq> set cols"
  shows "snapshotEquals sk obj (select cols obj)"
  using assms by (auto simp add: snapshotEquals_def list_all_iff select_in)

lemma add_twice:
  assumes wf: "wellFormed sk ok obj" and none: "latestRow obj db = None"
  shows "addSnapshot (getStatements sk ok) obj False True
           (snd (addSnapshot (getStatements sk ok) obj False True db))
         = (Inr SAME_AS_LATEST, snd (addSnapshot (getStatements sk ok) obj False True db))"
proof -
  let ?cols = "''id'' # ok @ ''_timestamp'' # sk"
  let ?example_tables = "db\<lparr>latest := latest db @ [select ?cols obj]\<rparr>"
  have first: "snd (addSnapshot (getStatements sk ok) obj False True db) = ?example_tables"
    by (simp add: add_first [OF wf none])
  have m: "idMatches obj (select ?cols obj)"
    using wf by (intro inserted_row_matches) (simp_all add: wellFormed_def)
  have e: "snapshotEquals sk obj (select ?cols obj)"
    by (intro inserted_row_equals) auto
  have "latestRow obj ?example_tables \<noteq> None"
    using m by (auto simp add: latestRow_def find_None_iff)
  moreover have "sameAsLatest sk obj ?example_tables"
    using m e by (auto simp add: sameAsLatest_def find_None_iff)
  ultimately show ?thesis
    unfolding first by (rule add_same [OF wf])
qed

lemma toBigInt_bound: "toBigInt (obj k) = Inr t \<Longrightarrow> obj k \<noteq> None"
  by (cases "obj k") (simp_all add: toBigInt_def)

lemma recordSnapshot_unbound:
  assumes "\<not> list_all (\<lambda>p. obj p \<noteq> None) (''id'' # sk)"
  shows "\<exists>e. recordSnapshot (getStatements sk ok) obj True db = (Inl e, db)"
proof -
  from assms have "bindParams (''id'' # sk) obj \<noteq> None"
    using bindParams_None [of "''id'' # sk" obj] by blast
  then obtain e where "bindParams (''id'' # sk) obj = Some e" by blast
  then show ?thesis
    by (simp add: recordSnapshot_def getStatements_def query_def)
qed

lemma recordSnapshot_bound:
  assumes b: "list_all (\<lambda>p. obj p \<noteq> None) (''id'' # sk)"
  shows "recordSnapshot (getStatements sk ok) obj True db =
     (if sameAsLatest sk obj db then (Inr SAME_AS_LATEST, db)
      else case toBigInt (obj ''_timestamp'') of
             Inl e \<Rightarrow> (Inl e, db)
           | Inr t \<Rightarrow>
               (case latestRow obj db of
                  None \<Rightarrow> (Inl TypeError, db)
                | Some row \<Rightarrow>
                    if bigint_le t (arg row ''_timestamp'') then (Inl NotMoreRecent, db)
                    else (Inr ADDED_ANOTHER_SNAPSHOT,
                          \<lparr>latest = map (\<lambda>r. if idMatches obj r
                                              then r ++ select (''_timestamp'' # sk) obj else r)
                                        (latest db),
                           previous = previous db
                             @ map (select (''id'' # ''_timestamp'' # sk))
                                 (filter (idMatches obj) (latest db))\<rparr>)))"
proof -
  have q1: "\<And>x::sqlobj option. query (''id'' # sk) obj x = Inr x"
    using b by (rule query_bound)
  have bid: "list_all (\<lambda>p. obj p \<noteq> None) [''id'']" using b by simp
  have q2: "\<And>x::sqlobj option. query [''id''] obj x = Inr x"
    using bid by (rule query_bound)
  have q3: "\<And>x::snapshot_tables. query [''id''] obj x = Inr x"
    using bid by (rule query_bound)
  have q4: "\<And>(x::snapshot_tables) t. toBigInt (obj ''_timestamp'') = Inr t
              \<Longrightarrow> query (''_timestamp'' # sk @ [''id'']) obj x = Inr x"
  proof -
    fix x :: snapshot_tables and t
    assume "toBigInt (obj ''_timestamp'') = Inr t"
    then have "obj ''_timestamp'' \<noteq> None" by (rule toBigInt_bound)
    then have "list_all (\<lambda>p. obj p \<noteq> None) (''_timestamp'' # sk @ [''id''])"
      using b by simp
    then show "query (''_timestamp'' # sk @ [''id'']) obj x = Inr x" by (rule query_bound)
  qed
  show ?thesis
  proof (cases "sameAsLatest sk obj db")
    case True
    then show ?thesis
      by (auto simp add: recordSnapshot_def getStatements_def q1 sameAsLatest_def)
  next
    case False
    then have f: "find (\<lambda>r. idMatches obj r \<and> snapshotEquals sk obj r) (latest db) = None"
      by (simp add: sameAsLatest_def)
    show ?thesis
    proof (cases "toBigInt (obj ''_timestamp'')")
      case (Inl e)
      then show ?thesis using False
        by (simp add: recordSnapshot_def notMoreRecent_def getStatements_def q1 f)
    next
      case (Inr t)
      show ?thesis
      proof (cases "latestRow obj db")
        case None
        then show ?thesis using False Inr
          by (simp add: recordSnapshot_def notMoreRecent_def getStatements_def q1 q2 f latestRow_def)
      next
        case (Some row)
        then have r: "find (idMatches obj) (latest db) = Some row" by (simp add: latestRow_def)
        have ts: "arg (select [''_timestamp''] row) ''_timestamp'' = arg row ''_timestamp''"
          by (simp add: select_in)
        show ?thesis using False Inr Some
          by (simp add: recordSnapshot_def notMoreRecent_def getStatements_def q1 q2 q3 q4 [OF Inr]
                f r ts)
      qed
    qed
  qed
qed

lemma recordSnapshot_error:
  assumes "fst (recordSnapshot (getStatements sk ok) obj True db) = Inl e"
  shows "snd (recordSnapshot (getStatements sk ok) obj True db) = db"
proof (cases "list_all (\<lambda>p. obj p \<noteq> None) (''id'' # sk)")
  case True
  show ?thesis
    using assms unfolding recordSnapshot_bound [OF True]
    by (auto split: if_splits sum.splits option.splits)
next
  case False
  from recordSnapshot_unbound [OF False, of ok db] show ?thesis by auto
qed

lemma error_leaves_tables:
  assumes "fst (addSnapshot (getStatements sk ok) obj partial True db) = Inl e"
  shows "snd (addSnapshot (getStatements sk ok) obj partial True db) = db"
proof (cases partial)
  case True
  let ?o1 = "obj(''$getAll'' \<mapsto> SInt 0)"
  show ?thesis
  proof (cases "getLatestSnapshot (getStatements sk ok) ?o1 db")
    case (Inl e')
    then show ?thesis using True by (simp add: addSnapshot_def)
  next
    case (Inr old)
    show ?thesis
    proof (cases old)
      case None
      then show ?thesis using True Inr assms
        by (auto simp add: addSnapshot_def split: sum.splits error.splits)
    next
      case (Some oldObject)
      then show ?thesis using True Inr assms recordSnapshot_error [of sk ok "oldObject ++ ?o1" db e]
        by (simp add: addSnapshot_def)
    qed
  qed
next
  case False
  show ?thesis
  proof (cases "doesExist (getStatements sk ok) obj db")
    case (Inl e')
    then show ?thesis using False by (simp add: addSnapshot_def)
  next
    case (Inr ex)
    show ?thesis
    proof (cases ex)
      case None
      then show ?thesis using False Inr assms
        by (auto simp add: addSnapshot_def split: sum.splits)
    next
      case (Some x)
      then show ?thesis using False Inr assms recordSnapshot_error [of sk ok obj db e]
        by (simp add: addSnapshot_def)
    qed
  qed
qed

lemma idMatches_cong: "arg a ''id'' = arg b ''id'' \<Longrightarrow> idMatches a = idMatches b"
  by (simp add: idMatches_def fun_eq_iff)

lemmas ex_defs = example_user_def example_user_renamed_def example_user_renamed_later_def
  example_tables_def

lemmas ev_defs = latestRow_def sameAsLatest_def idMatches_def sql_eq_def arg_def
        snapshotEquals_def wellFormed_def toBigInt_def

text \<open>
  C6, as amended. For a full add of a well-formed object through the statements of
  \<open>getStatements\<close>: when no row has the object's id, a latest row is inserted and the result
  is \<open>ADDED_FIRST_SNAPSHOT\<close>; when a row has the id and the monitored fields are those of the
  stored row, nothing is written and the result is \<open>SAME_AS_LATEST\<close>; when they differ and
  the object's timestamp is greater than the stored one, the stored row is copied to the
  previous-snapshots table, the latest row is updated in place and the result is
  \<open>ADDED_ANOTHER_SNAPSHOT\<close>. Adding the same object twice, starting without a row, is one
  insert followed by a call that writes nothing and returns \<open>SAME_AS_LATEST\<close>.
\<close>

theorem addSnapshot_full:
  assumes wf: "wellFormed sk ok obj"
  shows "(latestRow obj db = None \<longrightarrow>
            addSnapshot (getStatements sk ok) obj False True db =
              (Inr ADDED_FIRST_SNAPSHOT,
               db\<lparr>latest := latest db @ [select (''id'' # ok @ ''_timestamp'' # sk) obj]\<rparr>))
       \<and> (latestRow obj db \<noteq> None \<and> sameAsLatest sk obj db \<longrightarrow>
            addSnapshot (getStatements sk ok) obj False True db = (Inr SAME_AS_LATEST, db))
       \<and> (\<forall>row t. latestRow obj db = Some row \<and> \<not> sameAsLatest sk obj db
              \<and> obj ''_timestamp'' = Some (SInt t) \<and> \<not> bigint_le t (arg row ''_timestamp'') \<longrightarrow>
            addSnapshot (getStatements sk ok) obj False True db =
              (Inr ADDED_ANOTHER_SNAPSHOT,
               \<lparr>latest = map (\<lambda>r. if idMatches obj r
                                   then r ++ select (''_timestamp'' # sk) obj else r) (latest db),
                previous = previous db
                  @ map (select (''id'' # ''_timestamp'' # sk)) (filter (idMatches obj) (latest db))\<rparr>))
       \<and> (latestRow obj db = None \<longrightarrow>
            addSnapshot (getStatements sk ok) obj False True
                (snd (addSnapshot (getStatements sk ok) obj False True db))
              = (Inr SAME_AS_LATEST, snd (addSnapshot (getStatements sk ok) obj False True db)))"
  using add_first [OF wf] add_same [OF wf] add_another [OF wf] add_twice [OF wf]
  by blast

theorem addSnapshot_full_witness:
  "wellFormed [''name''] [''bot''] example_user
   \<and> latestRow example_user \<lparr>latest = [], previous = []\<rparr> = None
   \<and> fst (addSnapshot (getStatements [''name''] [''bot'']) example_user False True \<lparr>latest = [], previous = []\<rparr>)
       = Inr ADDED_FIRST_SNAPSHOT
   \<and> addSnapshot (getStatements [''name''] [''bot'']) example_user False True
         (snd (addSnapshot (getStatements [''name''] [''bot'']) example_user False True \<lparr>latest = [], previous = []\<rparr>))
       = (Inr SAME_AS_LATEST,
          snd (addSnapshot (getStatements [''name''] [''bot'']) example_user False True \<lparr>latest = [], previous = []\<rparr>))
   \<and> latestRow example_user example_tables \<noteq> None \<and> sameAsLatest [''name''] example_user example_tables
   \<and> addSnapshot (getStatements [''name''] [''bot'']) example_user False True example_tables = (Inr SAME_AS_LATEST, example_tables)
   \<and> wellFormed [''name''] [''bot''] example_user_renamed_later
   \<and> \<not> sameAsLatest [''name''] example_user_renamed_later example_tables
   \<and> fst (addSnapshot (getStatements [''name''] [''bot'']) example_user_renamed_later False True example_tables)
       = Inr ADDED_ANOTHER_SNAPSHOT
   \<and> length (previous (snd (addSnapshot (getStatements [''name''] [''bot'']) example_user_renamed_later False True example_tables))) = 1"
proof -
  have wf: "wellFormed [''name''] [''bot''] example_user" by (simp add: ev_defs ex_defs)
  have wfc: "wellFormed [''name''] [''bot''] example_user_renamed_later" by (simp add: ev_defs ex_defs)
  have n: "latestRow example_user \<lparr>latest = [], previous = []\<rparr> = None" by (simp add: ev_defs)
  have s: "latestRow example_user example_tables \<noteq> None \<and> sameAsLatest [''name''] example_user example_tables"
    by (simp add: ev_defs ex_defs)
  have c: "latestRow example_user_renamed_later example_tables = Some (hd (latest example_tables)) \<and> \<not> sameAsLatest [''name''] example_user_renamed_later example_tables
           \<and> example_user_renamed_later ''_timestamp'' = Some (SInt 20)
           \<and> \<not> bigint_le 20 (arg (hd (latest example_tables)) ''_timestamp'')"
    by (simp add: ev_defs ex_defs)
  note A = addSnapshot_full [OF wf, of "\<lparr>latest = [], previous = []\<rparr>"]
  note B = addSnapshot_full [OF wf, of example_tables]
  note C = addSnapshot_full [OF wfc, of example_tables]
  from A n have a1: "fst (addSnapshot (getStatements [''name''] [''bot'']) example_user False True \<lparr>latest = [], previous = []\<rparr>)
       = Inr ADDED_FIRST_SNAPSHOT" by simp
  from A n have a2: "addSnapshot (getStatements [''name''] [''bot'']) example_user False True
         (snd (addSnapshot (getStatements [''name''] [''bot'']) example_user False True \<lparr>latest = [], previous = []\<rparr>))
       = (Inr SAME_AS_LATEST,
          snd (addSnapshot (getStatements [''name''] [''bot'']) example_user False True \<lparr>latest = [], previous = []\<rparr>))"
    by blast
  from B s have b1: "addSnapshot (getStatements [''name''] [''bot'']) example_user False True example_tables = (Inr SAME_AS_LATEST, example_tables)"
    by blast
  from C c have c1: "addSnapshot (getStatements [''name''] [''bot'']) example_user_renamed_later False True example_tables =
              (Inr ADDED_ANOTHER_SNAPSHOT,
               \<lparr>latest = map (\<lambda>r. if idMatches example_user_renamed_later r
                                   then r ++ select (''_timestamp'' # [''name'']) example_user_renamed_later else r) (latest example_tables),
                previous = previous example_tables
                  @ map (select (''id'' # ''_timestamp'' # [''name''])) (filter (idMatches example_user_renamed_later) (latest example_tables))\<rparr>)"
    by blast
  have c2: "length (filter (idMatches example_user_renamed_later) (latest example_tables)) = 1" by (simp add: ev_defs ex_defs)
  have p: "previous example_tables = []" by (simp add: example_tables_def)
  show ?thesis using wf wfc n a1 a2 s b1 c c1 c2 p by simp
qed

text \<open>
  C6 as stated says that whenever the monitored fields differ from the stored row the
  snapshot is recorded. With a timestamp that is not greater than the stored one the call
  throws instead and writes nothing.
\<close>

theorem addSnapshot_full_counterexample:
  "latestRow example_user_renamed example_tables \<noteq> None \<and> \<not> sameAsLatest [''name''] example_user_renamed example_tables
   \<and> addSnapshot (getStatements [''name''] [''bot'']) example_user_renamed False True example_tables = (Inl NotMoreRecent, example_tables)"
  by (simp add: latestRow_def sameAsLatest_def example_user_renamed_def example_tables_def idMatches_def sql_eq_def arg_def
        snapshotEquals_def addSnapshot_def recordSnapshot_def getStatements_def query_def
        notMoreRecent_def toBigInt_def select_def)

text \<open>
  C7, as amended. Let the added object have an id, bind every placeholder (a full add) or be merged
  into the stored row (a partial add), and carry an integer timestamp. Then \<open>addSnapshot\<close>
  throws exactly when a row is stored for the id, the snapshot to record differs from it,
  and the timestamp is not greater than the stored one; the error is then the
  \<open>RangeError\<close> of \<open>addSnapshot\<close>. Whatever the object, a call that throws leaves both
  tables as they were.
\<close>

theorem addSnapshot_raises:
  assumes ok: "obj ''id'' \<noteq> None \<and> (partial \<or> wellFormed sk ok obj)"
    and ts: "toBigInt (obj ''_timestamp'') = Inr t"
  shows "(isl (fst (addSnapshot (getStatements sk ok) obj partial True db))
            \<longleftrightarrow> (\<exists>row. latestRow obj db = Some row
                   \<and> \<not> sameAsLatest sk (mergedObject sk ok obj partial db) db
                   \<and> bigint_le t (arg row ''_timestamp'')))
       \<and> (isl (fst (addSnapshot (getStatements sk ok) obj partial True db))
            \<longrightarrow> fst (addSnapshot (getStatements sk ok) obj partial True db) = Inl NotMoreRecent
                \<and> snd (addSnapshot (getStatements sk ok) obj partial True db) = db)
       \<and> (\<forall>e obj' partial'.
             fst (addSnapshot (getStatements sk ok) obj' partial' True db) = Inl e
               \<longrightarrow> snd (addSnapshot (getStatements sk ok) obj' partial' True db) = db)"
proof -
  have "(isl (fst (addSnapshot (getStatements sk ok) obj partial True db))
            \<longleftrightarrow> (\<exists>row. latestRow obj db = Some row
                   \<and> \<not> sameAsLatest sk (mergedObject sk ok obj partial db) db
                   \<and> bigint_le t (arg row ''_timestamp'')))
       \<and> (isl (fst (addSnapshot (getStatements sk ok) obj partial True db))
            \<longrightarrow> fst (addSnapshot (getStatements sk ok) obj partial True db) = Inl NotMoreRecent
                \<and> snd (addSnapshot (getStatements sk ok) obj partial True db) = db)"
  proof (cases partial)
  case False
  from ok False have wf: "wellFormed sk ok obj" by simp
  then have b: "list_all (\<lambda>p. obj p \<noteq> None) (''id'' # sk)"
    and bid: "list_all (\<lambda>p. obj p \<noteq> None) [''id'']"
    and ball: "list_all (\<lambda>p. obj p \<noteq> None) (''id'' # ok @ ''_timestamp'' # sk)"
    by (simp_all add: wellFormed_def)
  have q: "\<And>x::sqlobj option. query [''id''] obj x = Inr x" using bid by (rule query_bound)
  have q': "\<And>x::snapshot_tables. query (''id'' # ok @ ''_timestamp'' # sk) obj x = Inr x"
    using ball by (rule query_bound)
  show ?thesis
  proof (cases "latestRow obj db")
    case None
    then show ?thesis using False
      by (simp add: addSnapshot_def getStatements_def q q' latestRow_def)
  next
    case (Some row)
    then have "addSnapshot (getStatements sk ok) obj False True db
                 = recordSnapshot (getStatements sk ok) obj True db"
      by (simp add: addSnapshot_def getStatements_def q latestRow_def)
    then show ?thesis using False Some ts
      by (simp add: recordSnapshot_bound [OF b] mergedObject_def)
  qed
next
  case True
  let ?o1 = "obj(''$getAll'' \<mapsto> SInt 0)"
  have b1: "list_all (\<lambda>p. ?o1 p \<noteq> None) [''id'', ''$getAll'']" using ok by simp
  have q: "\<And>x::sqlobj option. query [''id'', ''$getAll''] ?o1 x = Inr x" using b1 by (rule query_bound)
  have m1: "idMatches ?o1 = idMatches obj" by (rule idMatches_cong) (simp add: arg_def)
  have g: "(\<lambda>r. idMatches ?o1 r \<or> sql_eq (arg ?o1 ''$getAll'') (SInt 1)) = idMatches obj"
    by (simp add: m1 arg_def sql_eq_def)
  show ?thesis
  proof (cases "latestRow obj db")
    case None
    then have gl: "getLatestSnapshot (getStatements sk ok) ?o1 db = Inr None"
      by (simp add: getStatements_def q g latestRow_def)
    have "\<not> isl (fst (addSnapshot (getStatements sk ok) obj True True db))"
    proof (cases "addLatestSnapshot (getStatements sk ok) ?o1 db")
      case (Inl e)
      then obtain p where "e = MissingNamedParameter p"
        using query_Inl by (fastforce simp add: getStatements_def)
      then show ?thesis using Inl by (simp add: addSnapshot_def gl)
    next
      case (Inr d)
      then show ?thesis by (simp add: addSnapshot_def gl)
    qed
    then show ?thesis using True None by simp
  next
    case (Some row)
    define m where "m = select (''id'' # ''_deleted'' # ok @ ''_timestamp'' # sk) row ++ ?o1"
    have mo: "mergedObject sk ok obj True db = m" using Some by (simp add: mergedObject_def m_def)
    have rs: "addSnapshot (getStatements sk ok) obj True True db
                 = recordSnapshot (getStatements sk ok) m True db"
      using Some by (simp add: addSnapshot_def getStatements_def q g latestRow_def Let_def m_def)
    have b: "list_all (\<lambda>p. m p \<noteq> None) (''id'' # sk)"
      by (auto simp add: m_def list_all_iff select_def map_add_def split: option.splits)
    have tsm: "toBigInt (m ''_timestamp'') = Inr t"
    proof -
      from ts have "obj ''_timestamp'' \<noteq> None" by (rule toBigInt_bound)
      then have "m ''_timestamp'' = obj ''_timestamp''" by (auto simp add: m_def map_add_def)
      then show ?thesis using ts by simp
    qed
    have "arg m ''id'' = arg obj ''id''" using ok by (auto simp add: m_def arg_def map_add_def)
    then have mm: "idMatches m = idMatches obj" by (rule idMatches_cong)
    then have lr: "latestRow m db = Some row" using Some by (simp add: latestRow_def)
    show ?thesis using True
      by (simp add: rs recordSnapshot_bound [OF b] tsm lr mo Some)
  qed
qed
  then show ?thesis using error_leaves_tables by blast
qed

theorem addSnapshot_raises_witness:
  "example_user_renamed ''id'' \<noteq> None \<and> wellFormed [''name''] [''bot''] example_user_renamed
   \<and> toBigInt (example_user_renamed ''_timestamp'') = Inr 10
   \<and> latestRow example_user_renamed example_tables = Some (hd (latest example_tables))
   \<and> \<not> sameAsLatest [''name''] example_user_renamed example_tables
   \<and> bigint_le 10 (arg (hd (latest example_tables)) ''_timestamp'')
   \<and> fst (addSnapshot (getStatements [''name''] [''bot'']) example_user_renamed False True example_tables) = Inl NotMoreRecent
   \<and> snd (addSnapshot (getStatements [''name''] [''bot'']) example_user_renamed False True example_tables) = example_tables"
proof -
  have h1: "example_user_renamed ''id'' \<noteq> None \<and> (False \<or> wellFormed [''name''] [''bot''] example_user_renamed)"
    by (simp add: ev_defs ex_defs)
  have h2: "toBigInt (example_user_renamed ''_timestamp'') = Inr 10" by (simp add: ev_defs ex_defs)
  have c: "latestRow example_user_renamed example_tables = Some (hd (latest example_tables)) \<and> \<not> sameAsLatest [''name''] example_user_renamed example_tables
           \<and> bigint_le 10 (arg (hd (latest example_tables)) ''_timestamp'')"
    by (simp add: ev_defs ex_defs)
  have m: "mergedObject [''name''] [''bot''] example_user_renamed False example_tables = example_user_renamed" by (simp add: mergedObject_def)
  note R = addSnapshot_raises [OF h1 h2, of example_tables]
  from R c m have "isl (fst (addSnapshot (getStatements [''name''] [''bot'']) example_user_renamed False True example_tables))"
    by simp
  with R have "fst (addSnapshot (getStatements [''name''] [''bot'']) example_user_renamed False True example_tables) = Inl NotMoreRecent
   \<and> snd (addSnapshot (getStatements [''name''] [''bot'']) example_user_renamed False True example_tables) = example_tables"
    by blast
  then show ?thesis using h1 h2 c by simp
qed

text \<open>
  C7 as stated fails in its "only if": an object that lacks a value for a placeholder is
  refused when the statement is bound. Here a row is stored with timestamp 10, the added
  object has the strictly greater timestamp 20 and no \<open>name\<close>, and \<open>addSnapshot\<close> throws
  the driver's error for the missing named parameter; the tables are as they were.
\<close>

theorem addSnapshot_raises_counterexample:
  "latestRow example_user_unnamed_later example_tables = Some (hd (latest example_tables))
   \<and> toBigInt (example_user_unnamed_later ''_timestamp'') = Inr 20
   \<and> \<not> bigint_le 20 (arg (hd (latest example_tables)) ''_timestamp'')
   \<and> addSnapshot (getStatements [''name''] [''bot'']) example_user_unnamed_later False True
         example_tables
       = (Inl (MissingNamedParameter ''name''), example_tables)"
  by (simp add: latestRow_def example_user_unnamed_later_def example_tables_def idMatches_def
        sql_eq_def arg_def snapshotEquals_def addSnapshot_def recordSnapshot_def
        getStatements_def query_def notMoreRecent_def toBigInt_def select_def)

subsection \<open>The message backfill\<close>

lemma request_fst: "fst (fst (request env r run)) = r"
  by (cases r) (simp_all add: split_def Let_def)

lemma request_transactions: "transactions (snd (request env r run)) = transactions run"
  by (cases r) (simp_all add: split_def Let_def)

lemma request_requests: "requests (snd (request env r run)) = requests run"
  by (cases r) (simp_all add: split_def Let_def)

lemma issue_fst: "map fst (fst (issue env rs run)) = rs"
  by (induction rs arbitrary: run) (simp_all add: split_def Let_def request_fst)

lemma issue_transactions: "transactions (snd (issue env rs run)) = transactions run"
  by (induction rs arbitrary: run) (simp_all add: split_def Let_def request_transactions)

lemma issue_requests: "requests (snd (issue env rs run)) = requests run"
  by (induction rs arbitrary: run) (simp_all add: split_def Let_def request_requests)

lemma addedMessages_append: "addedMessages (xs @ ys) = addedMessages xs @ addedMessages ys"
  by (simp add: addedMessages_def)

lemma messageResults_append:
  "messageResults (xs @ ys) = messageResults xs @ messageResults ys"
  by (simp add: messageResults_def)

lemma latestAnswer_append:
  "latestAnswer (xs @ ys) before = latestAnswer ys (latestAnswer xs before)"
  by (cases xs; cases ys) (simp_all add: latestAnswer_def)

lemma issue_Cons:
  "fst (issue env (r # rs) run) = fst (request env r run) # fst (issue env rs (snd (request env r run)))"
  "snd (issue env (r # rs) run) = snd (issue env rs (snd (request env r run)))"
  by (simp_all add: split_def Let_def)

lemma messageResults_Cons: "messageResults (e # es) = messageResults [e] @ messageResults es"
  by (simp add: messageResults_def)

lemma addedMessages_Cons: "addedMessages (r # rs) = addedMessages [r] @ addedMessages rs"
  by (simp add: addedMessages_def)

lemma request_messageResults:
  "map fst (messageResults [fst (request env r run)]) = addedMessages [r]"
  by (cases r) (simp_all add: messageResults_def addedMessages_def split_def Let_def)

lemma issue_messageResults:
  "map fst (messageResults (fst (issue env rs run))) = addedMessages rs"
proof (induction rs arbitrary: run)
  case Nil
  show ?case by (simp add: messageResults_def addedMessages_def)
next
  case (Cons r rs)
  have "map fst (messageResults (fst (issue env (r # rs) run)))
          = map fst (messageResults [fst (request env r run)])
            @ map fst (messageResults (fst (issue env rs (snd (request env r run)))))"
    by (simp only: issue_Cons map_append
          messageResults_Cons [of "fst (request env r run)" "fst (issue env rs (snd (request env r run)))"])
  also have "\<dots> = addedMessages [r] @ addedMessages rs"
    by (simp only: request_messageResults Cons.IH)
  also have "\<dots> = addedMessages (r # rs)"
    by (rule addedMessages_Cons [symmetric])
  finally show ?case .
qed

lemma request_lastMessageAdd:
  "lastMessageAdd (snd (request env r run))
     = latestAnswer (messageResults [fst (request env r run)]) (lastMessageAdd run)"
  by (cases r) (simp_all add: messageResults_def latestAnswer_def split_def Let_def)

lemma issue_lastMessageAdd:
  "lastMessageAdd (snd (issue env rs run))
     = latestAnswer (messageResults (fst (issue env rs run))) (lastMessageAdd run)"
proof (induction rs arbitrary: run)
  case Nil
  show ?case by (simp add: messageResults_def latestAnswer_def)
next
  case (Cons r rs)
  have "lastMessageAdd (snd (issue env (r # rs) run))
          = latestAnswer (messageResults (fst (issue env rs (snd (request env r run)))))
              (latestAnswer (messageResults [fst (request env r run)]) (lastMessageAdd run))"
    by (simp only: issue_Cons Cons.IH request_lastMessageAdd)
  also have "\<dots> = latestAnswer (messageResults (fst (issue env (r # rs) run))) (lastMessageAdd run)"
    by (simp only: issue_Cons latestAnswer_append [symmetric]
          messageResults_Cons [of "fst (request env r run)" "fst (issue env rs (snd (request env r run)))"])
  finally show ?case .
qed

lemma transaction_insertedMessages:
  "insertedMessages (transaction env rs run) = insertedMessages run @ addedMessages rs"
  by (simp add: insertedMessages_def transaction_def split_def Let_def issue_transactions
        messageResults_append issue_messageResults)

lemma transaction_answered: "answered run \<Longrightarrow> answered (transaction env rs run)"
  by (simp add: answered_def transaction_def split_def Let_def issue_transactions
        messageResults_append issue_lastMessageAdd latestAnswer_append)

lemma transaction_requests: "requests (transaction env rs run) = requests run"
  by (simp add: transaction_def split_def Let_def issue_requests)

lemma addedMessages_messages: "addedMessages (map ADD_MESSAGE_SNAPSHOT ms) = ms"
  by (induction ms) (simp_all add: addedMessages_def)

lemma addedMessages_reactions: "addedMessages (map (ADD_INITIAL_REACTIONS i) rds) = []"
  by (induction rds) (simp_all add: addedMessages_def)

lemma flush_insertedMessages:
  "insertedMessages (flushMessagesWithoutReactions env pending run) = insertedMessages run @ pending"
  by (simp add: flushMessagesWithoutReactions_def transaction_insertedMessages addedMessages_messages)

lemma flush_answered: "answered run \<Longrightarrow> answered (flushMessagesWithoutReactions env pending run)"
  by (simp add: flushMessagesWithoutReactions_def transaction_answered)

lemma flush_requests: "requests (flushMessagesWithoutReactions env pending run) = requests run"
  by (simp add: flushMessagesWithoutReactions_def transaction_requests)

lemma onlyRequests_refl: "onlyRequests run run"
  by (simp add: onlyRequests_def)

lemma onlyRequests_trans: "onlyRequests a b \<Longrightarrow> onlyRequests b c \<Longrightarrow> onlyRequests a c"
  by (auto simp add: onlyRequests_def)

lemma onlyRequests_append: "onlyRequests run (run\<lparr>requests := requests run @ rs\<rparr>)"
  by (simp add: onlyRequests_def)

lemma fetchReactionUsers_frame:
  "fetchReactionUsers fuel env i e t u us run = (x, run') \<Longrightarrow> onlyRequests run run'"
proof (induction fuel env i e t u us run arbitrary: x run' rule: fetchReactionUsers.induct)
  case (1 env i e t u us run)
  then show ?case by (simp add: onlyRequests_refl)
next
  case (2 fuel env i e t u us run)
  let ?req = "GetReactions (channel_id env) i e 100 t u"
  let ?run1 = "run\<lparr>requests := requests run @ [?req]\<rparr>"
  have step: "onlyRequests run ?run1" by (rule onlyRequests_append)
  show ?case
  proof (cases "aborted (api env ?req) \<or> status (api env ?req) = 403 \<or> status (api env ?req) = 404
                  \<or> \<not> response_ok (api env ?req) \<or> length (users (api env ?req)) < 100")
    case True
    then have "run' = ?run1" using "2.prems" by (auto simp add: Let_def split: if_splits)
    then show ?thesis using step by simp
  next
    case False
    then have "fetchReactionUsers fuel env i e t (last (users (api env ?req)))
                 (us @ users (api env ?req)) ?run1 = (x, run')"
      using "2.prems" by (simp add: Let_def)
    then have "onlyRequests ?run1 run'"
      using False by (intro "2.IH") auto
    then show ?thesis using step onlyRequests_trans by blast
  qed
qed

lemma fetchReactionTypes_frame:
  "fetchReactionTypes fuel env i e ts run = (x, run') \<Longrightarrow> onlyRequests run run'"
proof (induction ts arbitrary: run x run')
  case Nil
  then show ?case by (simp add: onlyRequests_refl)
next
  case (Cons t ts)
  obtain y run1 where u: "fetchReactionUsers fuel env i e t 0 [] run = (y, run1)"
    by (cases "fetchReactionUsers fuel env i e t 0 [] run") 
  then have f1: "onlyRequests run run1" by (rule fetchReactionUsers_frame)
  show ?case
  proof (cases y)
    case (Inl s)
    then show ?thesis using Cons.prems u f1 by simp
  next
    case (Inr userIDs)
    obtain z run2 where r: "fetchReactionTypes fuel env i e ts run1 = (z, run2)"
      by (cases "fetchReactionTypes fuel env i e ts run1")
    then have f2: "onlyRequests run1 run2" by (rule Cons.IH)
    have "run' = run2" using Cons.prems u r Inr by (cases z) simp_all
    then show ?thesis using f1 f2 onlyRequests_trans by blast
  qed
qed

lemma fetchReactions_frame:
  "fetchReactions fuel env i rs run = (x, run') \<Longrightarrow> onlyRequests run run'"
proof (induction rs arbitrary: run x run')
  case Nil
  then show ?case by (simp add: onlyRequests_refl)
next
  case (Cons r rs)
  let ?types = "(if count_normal r > 0 then [0] else []) @ (if count_burst r > 0 then [1::nat] else [])"
  obtain y run1 where u: "fetchReactionTypes fuel env i (reaction_emoji r) ?types run = (y, run1)"
    by (cases "fetchReactionTypes fuel env i (reaction_emoji r) ?types run")
  then have f1: "onlyRequests run run1" by (rule fetchReactionTypes_frame)
  show ?case
  proof (cases y)
    case (Inl s)
    then show ?thesis using Cons.prems u f1 by simp
  next
    case (Inr rds)
    obtain z run2 where r: "fetchReactions fuel env i rs run1 = (z, run2)"
      by (cases "fetchReactions fuel env i rs run1")
    then have f2: "onlyRequests run1 run2" by (rule Cons.IH)
    have "run' = run2" using Cons.prems u r Inr by (cases z) simp_all
    then show ?thesis using f1 f2 onlyRequests_trans by blast
  qed
qed

lemma onlyRequests_insertedMessages:
  "onlyRequests run run' \<Longrightarrow> insertedMessages run' = insertedMessages run"
  by (simp add: onlyRequests_def insertedMessages_def)

lemma addMessages_insertedMessages:
  "\<exists>k. insertedMessages (snd (addMessages fuel env ms pending run))
           = insertedMessages run @ take k (pending @ ms)
       \<and> (fst (addMessages fuel env ms pending run) = None \<longrightarrow> length (pending @ ms) \<le> k)"
proof (induction ms arbitrary: pending run)
  case Nil
  have "insertedMessages (snd (addMessages fuel env [] pending run))
          = insertedMessages run @ take (length pending) (pending @ [])"
    by (simp add: flush_insertedMessages)
  then show ?case by (intro exI [of _ "length pending"]) simp
next
  case (Cons m ms)
  show ?case
  proof (cases "\<not> no_reactions env \<and> reactions m \<noteq> []")
    case False
    obtain k where k: "insertedMessages (snd (addMessages fuel env ms (pending @ [m]) run))
           = insertedMessages run @ take k ((pending @ [m]) @ ms)"
      and k2: "fst (addMessages fuel env ms (pending @ [m]) run) = None
                 \<longrightarrow> length ((pending @ [m]) @ ms) \<le> k"
      using Cons.IH by blast
    have a: "addMessages fuel env (m # ms) pending run = addMessages fuel env ms (pending @ [m]) run"
      using False by (simp only: addMessages.simps if_False)
    have r1: "insertedMessages (snd (addMessages fuel env (m # ms) pending run))
            = insertedMessages run @ take k (pending @ m # ms)"
      unfolding a using k by simp
    have r2: "fst (addMessages fuel env (m # ms) pending run) = None
                     \<longrightarrow> length (pending @ m # ms) \<le> k"
      unfolding a using k2 by simp
    show ?thesis by (rule exI [of _ k]) (rule conjI [OF r1 r2])
  next
    case True
    let ?run1 = "flushMessagesWithoutReactions env pending run"
    obtain y run2 where f: "fetchReactions fuel env (mid m) (reactions m) ?run1 = (y, run2)"
      by (cases "fetchReactions fuel env (mid m) (reactions m) ?run1")
    then have "onlyRequests ?run1 run2" by (rule fetchReactions_frame)
    then have i2: "insertedMessages run2 = insertedMessages run @ pending"
      by (simp add: onlyRequests_insertedMessages flush_insertedMessages)
    show ?thesis
    proof (cases y)
      case (Inl s)
      then have "addMessages fuel env (m # ms) pending run = (Some s, run2)"
        using True f by (simp add: Let_def)
      then show ?thesis using i2 by (intro exI [of _ "length pending"]) simp
    next
      case (Inr rds)
      let ?run3 = "transaction env
                     (ADD_MESSAGE_SNAPSHOT m # map (ADD_INITIAL_REACTIONS (mid m)) rds) run2"
      have a: "addMessages fuel env (m # ms) pending run = addMessages fuel env ms [] ?run3"
        using True f Inr by (simp add: Let_def)
      have i3: "insertedMessages ?run3 = insertedMessages run @ pending @ [m]"
        by (simp add: transaction_insertedMessages i2 addedMessages_def addedMessages_reactions [unfolded addedMessages_def])
      obtain k where k: "insertedMessages (snd (addMessages fuel env ms [] ?run3))
           = insertedMessages ?run3 @ take k ([] @ ms)"
        and k2: "fst (addMessages fuel env ms [] ?run3) = None \<longrightarrow> length ([] @ ms) \<le> k"
        using Cons.IH by blast
      have r1: "insertedMessages (snd (addMessages fuel env (m # ms) pending run))
              = insertedMessages run @ take (length pending + 1 + k) (pending @ m # ms)"
        unfolding a using k by (simp add: i3)
      have r2: "fst (addMessages fuel env (m # ms) pending run) = None
                       \<longrightarrow> length (pending @ m # ms) \<le> length pending + 1 + k"
        unfolding a using k2 by simp
      show ?thesis by (rule exI [of _ "length pending + 1 + k"]) (rule conjI [OF r1 r2])
    qed
  qed
qed

lemma onlyRequests_answered: "onlyRequests run run' \<Longrightarrow> answered run \<Longrightarrow> answered run'"
  by (simp add: onlyRequests_def answered_def)

lemma addMessages_answered:
  "answered run \<Longrightarrow> answered (snd (addMessages fuel env ms pending run))"
proof (induction ms arbitrary: pending run)
  case Nil
  then show ?case by (simp add: flush_answered)
next
  case (Cons m ms)
  show ?case
  proof (cases "\<not> no_reactions env \<and> reactions m \<noteq> []")
    case False
    then have a: "addMessages fuel env (m # ms) pending run = addMessages fuel env ms (pending @ [m]) run"
      by (simp only: addMessages.simps if_False)
    show ?thesis unfolding a using Cons.prems by (rule Cons.IH)
  next
    case True
    let ?run1 = "flushMessagesWithoutReactions env pending run"
    obtain y run2 where f: "fetchReactions fuel env (mid m) (reactions m) ?run1 = (y, run2)"
      by (cases "fetchReactions fuel env (mid m) (reactions m) ?run1")
    then have "onlyRequests ?run1 run2" by (rule fetchReactions_frame)
    then have a2: "answered run2"
      using Cons.prems by (intro onlyRequests_answered [of ?run1 run2] flush_answered)
    show ?thesis
    proof (cases y)
      case (Inl s)
      then have "addMessages fuel env (m # ms) pending run = (Some s, run2)"
        using True f by (simp add: Let_def)
      then show ?thesis using a2 by simp
    next
      case (Inr rds)
      let ?run3 = "transaction env
                     (ADD_MESSAGE_SNAPSHOT m # map (ADD_INITIAL_REACTIONS (mid m)) rds) run2"
      have a: "addMessages fuel env (m # ms) pending run = addMessages fuel env ms [] ?run3"
        using True f Inr by (simp add: Let_def)
      have "answered ?run3" using a2 by (rule transaction_answered)
      then show ?thesis unfolding a by (rule Cons.IH)
    qed
  qed
qed

lemma addMessages_complete:
  assumes "fst (addMessages fuel env ms pending run) = None"
  shows "insertedMessages (snd (addMessages fuel env ms pending run))
           = insertedMessages run @ pending @ ms"
proof -
  obtain k where "insertedMessages (snd (addMessages fuel env ms pending run))
           = insertedMessages run @ take k (pending @ ms)"
    and "length (pending @ ms) \<le> k"
    using addMessages_insertedMessages [of fuel env ms pending run] assms by blast
  then show ?thesis by simp
qed

lemma addMessages_insertedIDs:
  "\<exists>k. insertedIDs (snd (addMessages fuel env ms pending run))
           = insertedIDs run @ take k (map mid (pending @ ms))"
proof -
  obtain k where "insertedMessages (snd (addMessages fuel env ms pending run))
           = insertedMessages run @ take k (pending @ ms)"
    using addMessages_insertedMessages [of fuel env ms pending run] by blast
  then have "insertedIDs (snd (addMessages fuel env ms pending run))
           = insertedIDs run @ take k (map mid (pending @ ms))"
    by (simp add: insertedIDs_def take_map)
  then show ?thesis by (rule exI)
qed

lemma descending_hd_max:
  assumes "sorted_wrt (\<lambda>a b. mid b < mid a) page" and "m \<in> set page"
  shows "mid m \<le> mid (hd page)"
  using assms by (cases page) auto

lemma ascending_rev:
  "sorted_wrt (\<lambda>a b. mid b < mid a) page \<Longrightarrow> sorted_wrt (<) (rev (map mid page))"
  by (simp add: sorted_wrt_rev sorted_wrt_map)

lemma sorted_wrt_take: "sorted_wrt P xs \<Longrightarrow> sorted_wrt P (take k xs)"
proof (induction xs arbitrary: k)
  case Nil
  then show ?case by simp
next
  case (Cons x xs)
  then show ?case by (cases k) (auto dest: in_set_takeD)
qed

lemma ascending_extend:
  assumes inv: "ascendingUpTo c run" and ord: "pageOrdered c page"
    and ids: "insertedIDs run' = insertedIDs run @ take k (rev (map mid page))"
  shows "sorted_wrt (<) (insertedIDs run')"
    and "page \<noteq> [] \<Longrightarrow> ascendingUpTo (mid (hd page)) run'"
proof -
  let ?new = "take k (rev (map mid page))"
  have s1: "sorted_wrt (<) ?new"
    using ord by (intro sorted_wrt_take ascending_rev) (simp add: pageOrdered_def)
  have new: "\<And>j. j \<in> set ?new \<Longrightarrow> c < j \<and> j \<le> mid (hd page)"
  proof -
    fix j assume "j \<in> set ?new"
    then have "j \<in> set (map mid page)" by (auto dest: in_set_takeD)
    then obtain m where m: "m \<in> set page" and j: "j = mid m" by auto
    have "c < mid m" using ord m by (simp add: pageOrdered_def list_all_iff)
    moreover have "mid m \<le> mid (hd page)"
      using ord m by (intro descending_hd_max) (simp_all add: pageOrdered_def)
    ultimately show "c < j \<and> j \<le> mid (hd page)" using j by simp
  qed
  have old: "\<And>i. i \<in> set (insertedIDs run) \<Longrightarrow> i \<le> c"
    using inv by (simp add: ascendingUpTo_def list_all_iff)
  have cross: "\<forall>i \<in> set (insertedIDs run). \<forall>j \<in> set ?new. i < j"
    using old new by fastforce
  show sorted: "sorted_wrt (<) (insertedIDs run')"
    using inv s1 cross by (simp add: ids sorted_wrt_append ascendingUpTo_def)
  show "ascendingUpTo (mid (hd page)) run'" if ne: "page \<noteq> []"
  proof -
    have "c < mid (hd page)" using ord ne by (cases page) (simp_all add: pageOrdered_def)
    then have "\<And>i. i \<in> set (insertedIDs run) \<Longrightarrow> i \<le> mid (hd page)"
      using old by fastforce
    then have "list_all (\<lambda>i. i \<le> mid (hd page)) (insertedIDs run')"
      using new by (auto simp add: ids list_all_iff)
    then show ?thesis using sorted by (simp add: ascendingUpTo_def)
  qed
qed

lemma syncPage_inserted:
  "\<exists>k. insertedIDs (snd (syncPage fuel env c run))
          = insertedIDs run
            @ take k (rev (map mid (messages (api env (GetMessages (channel_id env) 100 c)))))"
proof -
  let ?resp = "api env (GetMessages (channel_id env) 100 c)"
  let ?run1 = "run\<lparr>requests := requests run @ [GetMessages (channel_id env) 100 c]\<rparr>"
  have i1: "insertedIDs ?run1 = insertedIDs run" by (simp add: insertedIDs_def insertedMessages_def)
  obtain k where k: "insertedIDs (snd (addMessages fuel env (rev (messages ?resp)) [] ?run1))
           = insertedIDs run @ take k (rev (map mid (messages ?resp)))"
    using addMessages_insertedIDs [of fuel env "rev (messages ?resp)" "[]" ?run1]
    by (auto simp add: i1 rev_map)
  have "insertedIDs (snd (syncPage fuel env c run)) = insertedIDs run
        \<or> insertedIDs (snd (syncPage fuel env c run))
             = insertedIDs (snd (addMessages fuel env (rev (messages ?resp)) [] ?run1))"
    by (auto simp add: syncPage_def Let_def i1 split: prod.splits option.splits sum.splits)
  then show ?thesis
  proof
    assume "insertedIDs (snd (syncPage fuel env c run)) = insertedIDs run"
    then show ?thesis by (intro exI [of _ 0]) simp
  next
    assume "insertedIDs (snd (syncPage fuel env c run))
             = insertedIDs (snd (addMessages fuel env (rev (messages ?resp)) [] ?run1))"
    then show ?thesis using k by (intro exI [of _ k]) simp
  qed
qed

lemma syncPage_continue:
  assumes "syncPage fuel env c run = (Continue c', run')"
  shows "messages (api env (GetMessages (channel_id env) 100 c)) \<noteq> []
         \<and> c' = mid (hd (messages (api env (GetMessages (channel_id env) 100 c))))"
  using assms
  by (auto simp add: syncPage_def Let_def split: if_splits prod.splits option.splits sum.splits)

lemma syncLoop_ascending:
  assumes srv: "\<forall>after. pageOrdered after (messages (api env (GetMessages (channel_id env) 100 after)))"
    and inv: "ascendingUpTo c run"
  shows "sorted_wrt (<) (insertedIDs (snd (syncLoop n fuel env c run)))"
  using inv
proof (induction n arbitrary: c run)
  case 0
  then show ?case by (simp add: ascendingUpTo_def)
next
  case (Suc n)
  let ?page = "messages (api env (GetMessages (channel_id env) 100 c))"
  obtain st run1 where p: "syncPage fuel env c run = (st, run1)"
    by (cases "syncPage fuel env c run")
  obtain k where k: "insertedIDs run1 = insertedIDs run @ take k (rev (map mid ?page))"
    using syncPage_inserted [of fuel env c run] p by auto
  have ord: "pageOrdered c ?page" using srv by simp
  show ?case
  proof (cases st)
    case (Stop s)
    then show ?thesis using p ascending_extend(1) [OF Suc.prems ord k] by simp
  next
    case (Continue c')
    then have "?page \<noteq> []" and c': "c' = mid (hd ?page)"
      using syncPage_continue [of fuel env c run c' run1] p by simp_all
    then have "ascendingUpTo c' run1"
      using ascending_extend(2) [OF Suc.prems ord k] by simp
    then have "sorted_wrt (<) (insertedIDs (snd (syncLoop n fuel env c' run1)))"
      by (rule Suc.IH)
    then show ?thesis using p Continue by simp
  qed
qed

text \<open>
  C1. When every page the platform returns for \<open>after\<close> is newest first with strictly
  descending ids above \<open>after\<close>, the ids of the messages a backfill inserts, in the order of
  the requests, are strictly ascending, however the run ends. A page that is processed to
  its end is inserted in the reverse of the order it arrived in, oldest first.
\<close>

theorem syncMessages_ascending:
  assumes "\<forall>after. pageOrdered after (messages (api env (GetMessages (channel_id env) 100 after)))"
  shows "sorted_wrt (<) (insertedIDs (snd (syncMessages pages fuel env lastMessageID db)))
       \<and> (\<forall>page run. fst (addMessages fuel env (rev page) [] run) = None \<longrightarrow>
             insertedIDs (snd (addMessages fuel env (rev page) [] run))
               = insertedIDs run @ rev (map mid page))"
proof -
  let ?run0 = "\<lparr>requests = [], transactions = [], store = db, lastMessageAdd = None\<rparr>"
  have e: "insertedIDs ?run0 = []" by (simp add: insertedIDs_def insertedMessages_def messageResults_def)
  then have "\<And>c. ascendingUpTo c ?run0" by (simp add: ascendingUpTo_def)
  then have "\<And>c. sorted_wrt (<) (insertedIDs (snd (syncLoop pages fuel env c ?run0)))"
    using assms by (intro syncLoop_ascending)
  then have "sorted_wrt (<) (insertedIDs (snd (syncMessages pages fuel env lastMessageID db)))"
    using e by (simp add: syncMessages_def Let_def split_def)
  moreover have "\<forall>page run. fst (addMessages fuel env (rev page) [] run) = None \<longrightarrow>
             insertedIDs (snd (addMessages fuel env (rev page) [] run))
               = insertedIDs run @ rev (map mid page)"
    by (simp add: addMessages_complete insertedIDs_def rev_map)
  ultimately show ?thesis by simp
qed

lemma extended_refl: "extended run run"
  by (simp add: extended_def)

lemma extended_trans: "extended a b \<Longrightarrow> extended b c \<Longrightarrow> extended a c"
  by (auto simp add: extended_def)

lemma extended_same: "requests run' = requests run \<Longrightarrow> extended run run'"
  by (simp add: extended_def)

lemma onlyRequests_extended: "onlyRequests run run' \<Longrightarrow> extended run run'"
  by (simp add: onlyRequests_def extended_def)

lemma addMessages_extended: "extended run (snd (addMessages fuel env ms pending run))"
proof (induction ms arbitrary: pending run)
  case Nil
  show ?case by (simp add: extended_same flush_requests)
next
  case (Cons m ms)
  show ?case
  proof (cases "\<not> no_reactions env \<and> reactions m \<noteq> []")
    case False
    then have a: "addMessages fuel env (m # ms) pending run = addMessages fuel env ms (pending @ [m]) run"
      by (simp only: addMessages.simps if_False)
    show ?thesis unfolding a by (rule Cons.IH)
  next
    case True
    let ?run1 = "flushMessagesWithoutReactions env pending run"
    obtain y run2 where f: "fetchReactions fuel env (mid m) (reactions m) ?run1 = (y, run2)"
      by (cases "fetchReactions fuel env (mid m) (reactions m) ?run1")
    then have "onlyRequests ?run1 run2" by (rule fetchReactions_frame)
    then have "extended ?run1 run2" by (rule onlyRequests_extended)
    moreover have "extended run ?run1" by (simp add: extended_same flush_requests)
    ultimately have e2: "extended run run2" using extended_trans by blast
    show ?thesis
    proof (cases y)
      case (Inl s)
      then have "addMessages fuel env (m # ms) pending run = (Some s, run2)"
        using True f by (simp add: Let_def)
      then show ?thesis using e2 by simp
    next
      case (Inr rds)
      let ?run3 = "transaction env
                     (ADD_MESSAGE_SNAPSHOT m # map (ADD_INITIAL_REACTIONS (mid m)) rds) run2"
      have a: "addMessages fuel env (m # ms) pending run = addMessages fuel env ms [] ?run3"
        using True f Inr by (simp add: Let_def)
      have "extended run2 ?run3" by (simp add: extended_same transaction_requests)
      then have "extended run ?run3" using e2 extended_trans by blast
      moreover have "extended ?run3 (snd (addMessages fuel env ms [] ?run3))" by (rule Cons.IH)
      ultimately show ?thesis unfolding a using extended_trans by blast
    qed
  qed
qed

lemma syncPage_first_request:
  "\<exists>rs. requests (snd (syncPage fuel env c run))
          = requests run @ GetMessages (channel_id env) 100 c # rs"
proof -
  let ?run1 = "run\<lparr>requests := requests run @ [GetMessages (channel_id env) 100 c]\<rparr>"
  let ?resp = "api env (GetMessages (channel_id env) 100 c)"
  have "extended ?run1 (snd (addMessages fuel env (rev (messages ?resp)) [] ?run1))"
    by (rule addMessages_extended)
  moreover have "snd (syncPage fuel env c run) = ?run1
        \<or> snd (syncPage fuel env c run) = snd (addMessages fuel env (rev (messages ?resp)) [] ?run1)"
    by (auto simp add: syncPage_def Let_def split: prod.splits option.splits sum.splits)
  moreover have "extended ?run1 ?run1" by (rule extended_refl)
  ultimately have "extended ?run1 (snd (syncPage fuel env c run))" by auto
  then show ?thesis by (auto simp add: extended_def)
qed

lemma syncLoop_extended: "extended run (snd (syncLoop n fuel env c run))"
proof (induction n arbitrary: c run)
  case 0
  show ?case by (simp add: extended_refl)
next
  case (Suc n)
  obtain st run1 where p: "syncPage fuel env c run = (st, run1)"
    by (cases "syncPage fuel env c run")
  have e1: "extended run run1"
    using syncPage_first_request [of fuel env c run] p by (auto simp add: extended_def)
  show ?case
  proof (cases st)
    case (Stop s)
    then show ?thesis using p e1 by simp
  next
    case (Continue c')
    have "extended run1 (snd (syncLoop n fuel env c' run1))" by (rule Suc.IH)
    then show ?thesis using p Continue e1 extended_trans by fastforce
  qed
qed

lemma syncLoop_first_request:
  "\<exists>rs. requests (snd (syncLoop (Suc n) fuel env c run))
          = requests run @ GetMessages (channel_id env) 100 c # rs"
proof -
  obtain st run1 where p: "syncPage fuel env c run = (st, run1)"
    by (cases "syncPage fuel env c run")
  obtain rs where rs: "requests run1 = requests run @ GetMessages (channel_id env) 100 c # rs"
    using syncPage_first_request [of fuel env c run] p by auto
  show ?thesis
  proof (cases st)
    case (Stop s)
    then show ?thesis using p rs by simp
  next
    case (Continue c')
    obtain rs' where "requests (snd (syncLoop n fuel env c' run1)) = requests run1 @ rs'"
      using syncLoop_extended [of run1 n fuel env c'] by (auto simp add: extended_def)
    then show ?thesis using p Continue rs by simp
  qed
qed

lemma newest_answered:
  assumes ans: "answered run"
    and complete: "addMessages fuel env (rev page) [] run = (None, run2)"
    and ne: "page \<noteq> []"
  shows "\<exists>result. last (messageResults (concat (transactions run2))) = (hd page, result)
            \<and> lastMessageAdd run2 = Some result"
proof -
  let ?results = "messageResults (concat (transactions run2))"
  have "insertedMessages run2 = insertedMessages run @ rev page"
    using addMessages_complete [of fuel env "rev page" "[]" run] complete by simp
  then have m: "map fst ?results = insertedMessages run @ rev page"
    by (simp add: insertedMessages_def)
  then have nonempty: "?results \<noteq> []" using ne by auto
  have "fst (last ?results) = last (map fst ?results)"
    using nonempty by (simp add: last_map)
  also have "\<dots> = hd page" using m ne by (simp add: last_rev)
  finally have f: "fst (last ?results) = hd page" .
  have "answered run2"
    using addMessages_answered [OF ans, of fuel env "rev page" "[]"] complete by simp
  then have "lastMessageAdd run2 = Some (snd (last ?results))"
    using nonempty by (cases ?results) (simp_all add: answered_def latestAnswer_def)
  then show ?thesis using f by (intro exI [of _ "snd (last ?results)"]) (simp add: prod_eq_iff)
qed

lemma syncPage_ok:
  assumes "\<not> aborted (api env (GetMessages (channel_id env) 100 c))"
    and "response_ok (api env (GetMessages (channel_id env) 100 c))"
    and "addMessages fuel env (rev (messages (api env (GetMessages (channel_id env) 100 c)))) []
           (run\<lparr>requests := requests run @ [GetMessages (channel_id env) 100 c]\<rparr>) = (None, run2)"
    and "lastMessageAdd run2 \<noteq> None \<or> messages (api env (GetMessages (channel_id env) 100 c)) = []"
  shows "if messages (api env (GetMessages (channel_id env) 100 c)) = []
            \<or> length (messages (api env (GetMessages (channel_id env) 100 c))) < 100
            \<or> lastMessageAdd run2 \<noteq> Some (Inr ADDED_FIRST_SNAPSHOT)
         then \<exists>s. syncPage fuel env c run = (Stop (Some s), run2)
         else syncPage fuel env c run
                = (Continue (mid (hd (messages (api env (GetMessages (channel_id env) 100 c))))), run2)"
proof -
  let ?resp = "api env (GetMessages (channel_id env) 100 c)"
  have st: "status ?resp \<noteq> 403 \<and> status ?resp \<noteq> 404"
    using assms(2) by (auto simp add: response_ok_def)
  show ?thesis
  proof (cases "messages ?resp = []")
    case True
    then have "run2 = run\<lparr>requests := requests run @ [GetMessages (channel_id env) 100 c]\<rparr>"
      using assms(3) by (simp add: flushMessagesWithoutReactions_def)
    then show ?thesis using True assms(1,2) st by (simp add: syncPage_def Let_def)
  next
    case False
    then obtain a where a: "lastMessageAdd run2 = Some a" using assms(4) by auto
    show ?thesis
    proof (cases a)
      case (Inl e)
      then show ?thesis using False a assms(1,2,3) st by (simp add: syncPage_def Let_def)
    next
      case (Inr result)
      then show ?thesis using False a assms(1,2,3) st by (simp add: syncPage_def Let_def)
    qed
  qed
qed

text \<open>
  C5, as amended. When the stored maximum is at least the cached last message id, no
  request is made. Otherwise the first request asks for 100 messages after the stored
  maximum (or 0). For a page request that is answered OK without the abort signal and
  whose page is processed to its end, the variable tested afterwards is the answer to the
  insertion of the newest message of the page, and the loop ends there exactly when the
  page is empty, has fewer than 100 messages, or that answer is not
  \<open>ADDED_FIRST_SNAPSHOT\<close>; else it goes on with a request after the newest id of the page.
\<close>

theorem syncMessages_pagination:
  "(\<forall>l s. lastMessageID = Some l \<and> getLastMessageID env db = Some s \<and> l \<le> s \<longrightarrow>
       syncMessages pages fuel env lastMessageID db
         = (NothingToSync, \<lparr>requests = [], transactions = [], store = db, lastMessageAdd = None\<rparr>))
   \<and> (\<not> (\<exists>l s. lastMessageID = Some l \<and> getLastMessageID env db = Some s \<and> l \<le> s) \<longrightarrow>
       (\<exists>rs. requests (snd (syncMessages (Suc pages) fuel env lastMessageID db))
              = GetMessages (channel_id env) 100
                  (case getLastMessageID env db of None \<Rightarrow> 0 | Some s \<Rightarrow> s) # rs))
   \<and> (\<forall>n c (run :: 'db run) run2.
         answered run
         \<and> \<not> aborted (api env (GetMessages (channel_id env) 100 c))
         \<and> response_ok (api env (GetMessages (channel_id env) 100 c))
         \<and> addMessages fuel env (rev (messages (api env (GetMessages (channel_id env) 100 c)))) []
               (run\<lparr>requests := requests run @ [GetMessages (channel_id env) 100 c]\<rparr>) = (None, run2)
         \<longrightarrow>
           answered run2
         \<and> (messages (api env (GetMessages (channel_id env) 100 c)) \<noteq> [] \<longrightarrow>
               (\<exists>result. last (messageResults (concat (transactions run2)))
                            = (hd (messages (api env (GetMessages (channel_id env) 100 c))), result)
                     \<and> lastMessageAdd run2 = Some result))
         \<and> (if messages (api env (GetMessages (channel_id env) 100 c)) = []
                \<or> length (messages (api env (GetMessages (channel_id env) 100 c))) < 100
                \<or> lastMessageAdd run2 \<noteq> Some (Inr ADDED_FIRST_SNAPSHOT)
             then \<exists>s. syncLoop (Suc n) fuel env c run = (Some s, run2)
             else syncLoop (Suc n) fuel env c run
                    = syncLoop n fuel env
                        (mid (hd (messages (api env (GetMessages (channel_id env) 100 c))))) run2))"
proof (intro conjI allI impI)
  fix l s
  assume "lastMessageID = Some l \<and> getLastMessageID env db = Some s \<and> l \<le> s"
  then show "syncMessages pages fuel env lastMessageID db
         = (NothingToSync, \<lparr>requests = [], transactions = [], store = db, lastMessageAdd = None\<rparr>)"
    by (simp add: syncMessages_def Let_def)
next
  let ?run0 = "\<lparr>requests = [], transactions = [], store = db, lastMessageAdd = None\<rparr>"
  let ?c = "case getLastMessageID env db of None \<Rightarrow> 0 | Some s \<Rightarrow> s"
  assume n: "\<not> (\<exists>l s. lastMessageID = Some l \<and> getLastMessageID env db = Some s \<and> l \<le> s)"
  then have "lastMessageID = None \<or> getLastMessageID env db = None
               \<or> the (getLastMessageID env db) < the lastMessageID"
    by (cases lastMessageID; cases "getLastMessageID env db") auto
  then have "snd (syncMessages (Suc pages) fuel env lastMessageID db)
               = snd (syncLoop (Suc pages) fuel env ?c ?run0)"
    by (simp add: syncMessages_def Let_def split_def del: syncLoop.simps)
  then show "\<exists>rs. requests (snd (syncMessages (Suc pages) fuel env lastMessageID db))
              = GetMessages (channel_id env) 100 ?c # rs"
    using syncLoop_first_request [of pages fuel env ?c ?run0] by simp
next
  fix n c and run run2 :: "'db run"
  let ?resp = "api env (GetMessages (channel_id env) 100 c)"
  let ?run1 = "run\<lparr>requests := requests run @ [GetMessages (channel_id env) 100 c]\<rparr>"
  assume h: "answered run \<and> \<not> aborted ?resp \<and> response_ok ?resp
         \<and> addMessages fuel env (rev (messages ?resp)) [] ?run1 = (None, run2)"
  then have a1: "answered ?run1" by (simp add: answered_def)
  from h have c: "addMessages fuel env (rev (messages ?resp)) [] ?run1 = (None, run2)" by simp
  show "answered run2"
    using addMessages_answered [OF a1, of fuel env "rev (messages ?resp)" "[]"] c by simp
  show "\<exists>result. last (messageResults (concat (transactions run2))) = (hd (messages ?resp), result)
                     \<and> lastMessageAdd run2 = Some result" if "messages ?resp \<noteq> []"
    using newest_answered [OF a1 c that] .
  then have l: "lastMessageAdd run2 \<noteq> None \<or> messages ?resp = []" by auto
  have p: "if messages ?resp = [] \<or> length (messages ?resp) < 100
                \<or> lastMessageAdd run2 \<noteq> Some (Inr ADDED_FIRST_SNAPSHOT)
           then \<exists>s. syncPage fuel env c run = (Stop (Some s), run2)
           else syncPage fuel env c run = (Continue (mid (hd (messages ?resp))), run2)"
    using h l by (intro syncPage_ok) simp_all
  show "if messages ?resp = [] \<or> length (messages ?resp) < 100
                \<or> lastMessageAdd run2 \<noteq> Some (Inr ADDED_FIRST_SNAPSHOT)
             then \<exists>s. syncLoop (Suc n) fuel env c run = (Some s, run2)
             else syncLoop (Suc n) fuel env c run
                    = syncLoop n fuel env (mid (hd (messages ?resp))) run2"
  proof (cases "messages ?resp = [] \<or> length (messages ?resp) < 100
                \<or> lastMessageAdd run2 \<noteq> Some (Inr ADDED_FIRST_SNAPSHOT)")
    case True
    then obtain s where "syncPage fuel env c run = (Stop (Some s), run2)" using p by auto
    then have "syncLoop (Suc n) fuel env c run = (Some s, run2)" by simp
    then show ?thesis using True by auto
  next
    case False
    then have "syncPage fuel env c run = (Continue (mid (hd (messages ?resp))), run2)"
      using p by auto
    then show ?thesis using False by simp
  qed
qed

theorem syncMessages_ascending_witness:
  "(\<forall>after. pageOrdered after
       (messages (api example_env (GetMessages (channel_id example_env) 100 after))))
   \<and> sorted_wrt (<) (insertedIDs (snd (syncMessages 3 3 example_env None [])))
   \<and> insertedIDs (snd (syncMessages 3 3 example_env None [])) = [1, 2, 3]"
proof -
  have h: "\<forall>after. pageOrdered after
             (messages (api example_env (GetMessages (channel_id example_env) 100 after)))"
    by (simp add: example_env_def example_messages_def pageOrdered_def)
  have s: "sorted_wrt (<) (insertedIDs (snd (syncMessages 3 3 example_env None [])))"
    using syncMessages_ascending [OF h, of 3 3 None "[]"] by (rule conjunct1)
  have e: "insertedIDs (snd (syncMessages 3 3 example_env None [])) = [1, 2, 3]"
    by code_simp
  show ?thesis by (rule conjI [OF h conjI [OF s e]])
qed

theorem syncMessages_pagination_witness:
  "getLastMessageID example_env [1, 2, 3] = Some 3
   \<and> syncMessages 2 3 example_env (Some 3) [1, 2, 3]
       = (NothingToSync, \<lparr>requests = [], transactions = [], store = [1, 2, 3], lastMessageAdd = None\<rparr>)
   \<and> getLastMessageID example_env [] = None
   \<and> (\<exists>rs. requests (snd (syncMessages 3 3 example_env (Some 3) [])) = GetMessages 1 100 0 # rs)
   \<and> answered \<lparr>requests = [], transactions = [], store = [] :: nat list, lastMessageAdd = None\<rparr>
   \<and> \<not> aborted (api example_env (GetMessages 1 100 0))
   \<and> response_ok (api example_env (GetMessages 1 100 0))
   \<and> fst (addMessages 3 example_env (rev (messages (api example_env (GetMessages 1 100 0)))) []
            \<lparr>requests = [GetMessages 1 100 0], transactions = [], store = [], lastMessageAdd = None\<rparr>)
       = None
   \<and> length (messages (api example_env (GetMessages 1 100 0))) = 3
   \<and> (\<exists>s. syncLoop 2 3 example_env 0
              \<lparr>requests = [], transactions = [], store = [], lastMessageAdd = None\<rparr>
            = (Some s,
               snd (addMessages 3 example_env (rev (messages (api example_env (GetMessages 1 100 0)))) []
                      \<lparr>requests = [GetMessages 1 100 0], transactions = [], store = [],
                         lastMessageAdd = None\<rparr>)))"
proof -
  let ?run0 = "\<lparr>requests = [], transactions = [], store = [] :: nat list, lastMessageAdd = None\<rparr>"
  let ?run1 = "\<lparr>requests = [GetMessages 1 100 0], transactions = [], store = [] :: nat list,
                 lastMessageAdd = None\<rparr>"
  let ?page = "messages (api example_env (GetMessages 1 100 0))"
  have ch: "channel_id example_env = 1" by (simp add: example_env_def)
  have g1: "getLastMessageID example_env [1, 2, 3] = Some 3" by (simp add: example_env_def)
  have g2: "getLastMessageID example_env [] = None" by (simp add: example_env_def)
  have a0: "answered ?run0" by (simp add: answered_def latestAnswer_def messageResults_def)
  have r1: "\<not> aborted (api example_env (GetMessages 1 100 0))" by (simp add: example_env_def)
  have r2: "response_ok (api example_env (GetMessages 1 100 0))"
    by (simp add: example_env_def response_ok_def)
  have f: "fst (addMessages 3 example_env (rev ?page) [] ?run1) = None" by code_simp
  have len: "length ?page = 3" by (simp add: example_env_def example_messages_def)
  note A = syncMessages_pagination
    [where lastMessageID = "Some 3" and env = example_env and db = "[1, 2, 3]" and pages = 2 and fuel = 3]
  note B = syncMessages_pagination
    [where lastMessageID = "Some 3" and env = example_env and db = "[]" and pages = 2 and fuel = 3]
  from A g1 have skip: "syncMessages 2 3 example_env (Some 3) [1, 2, 3]
       = (NothingToSync, \<lparr>requests = [], transactions = [], store = [1, 2, 3], lastMessageAdd = None\<rparr>)"
    by simp
  from B g2 have first: "\<exists>rs. requests (snd (syncMessages 3 3 example_env (Some 3) []))
                            = GetMessages 1 100 0 # rs"
    by (simp add: ch)
  have c: "addMessages 3 example_env (rev ?page) [] (?run0\<lparr>requests := requests ?run0 @ [GetMessages 1 100 0]\<rparr>)
             = (None, snd (addMessages 3 example_env (rev ?page) [] ?run1))"
    using f by (simp add: prod_eq_iff)
  from B have "answered ?run0 \<and> \<not> aborted (api example_env (GetMessages 1 100 0))
         \<and> response_ok (api example_env (GetMessages 1 100 0))
         \<and> addMessages 3 example_env (rev ?page) [] (?run0\<lparr>requests := requests ?run0 @ [GetMessages 1 100 0]\<rparr>)
               = (None, snd (addMessages 3 example_env (rev ?page) [] ?run1))
         \<longrightarrow> (if ?page = [] \<or> length ?page < 100
                \<or> lastMessageAdd (snd (addMessages 3 example_env (rev ?page) [] ?run1))
                     \<noteq> Some (Inr ADDED_FIRST_SNAPSHOT)
             then \<exists>s. syncLoop (Suc 1) 3 example_env 0 ?run0
                         = (Some s, snd (addMessages 3 example_env (rev ?page) [] ?run1))
             else syncLoop (Suc 1) 3 example_env 0 ?run0
                    = syncLoop 1 3 example_env (mid (hd ?page))
                        (snd (addMessages 3 example_env (rev ?page) [] ?run1)))"
    unfolding ch by blast
  then have stop: "\<exists>s. syncLoop 2 3 example_env 0 ?run0
                         = (Some s, snd (addMessages 3 example_env (rev ?page) [] ?run1))"
    using a0 r1 r2 c len by (simp add: numeral_2_eq_2 del: syncLoop.simps)
  show ?thesis
    by (intro conjI g1 skip g2 first a0 r1 r2 f len stop)
qed

text \<open>
  C5 as stated gives three ways for the loop to end. It also ends when the abort signal
  is set after a request (and on a status that is not OK): here the first page is full,
  nothing was inserted, and the loop has ended.
\<close>

theorem syncMessages_pagination_counterexample:
  "length (messages (api aborting_env (GetMessages 1 100 0))) = 100
   \<and> syncMessages 3 3 aborting_env None []
       = (Synced (Some Aborted),
          \<lparr>requests = [GetMessages 1 100 0], transactions = [], store = [], lastMessageAdd = None\<rparr>)"
proof -
  have "length (messages (api aborting_env (GetMessages 1 100 0))) = 100" by code_simp
  moreover have "syncMessages 3 3 aborting_env None []
       = (Synced (Some Aborted),
          \<lparr>requests = [GetMessages 1 100 0], transactions = [], store = [], lastMessageAdd = None\<rparr>)"
    by code_simp
  ultimately show ?thesis by (rule conjI)
qed


subsection \<open>The accounts with read permission\<close>

lemma computeChannelPermissions_overwrites:
  "permissionOverwrites c1 = permissionOverwrites c2
     \<Longrightarrow> computeChannelPermissions a g c1 d = computeChannelPermissions a g c2 d"
  by (simp add: computeChannelPermissions_def)

lemma updateAccount_overwrites:
  "permissionOverwrites (updated (updateAccount g e u)) = permissionOverwrites (updated u)"
  by (simp add: updateAccount_def Let_def)

lemma updateAccount_read:
  "accountsWithReadPermission (updated (updateAccount g (a, d) u)) =
     (if hasChannelPermissions (computeChannelPermissions a g (updated u) d) ReadMessageHistory
      then insert a (accountsWithReadPermission (updated u))
      else accountsWithReadPermission (updated u) - {a})"
  by (auto simp add: updateAccount_def Let_def)

lemma fold_updateAccount_overwrites:
  "permissionOverwrites (updated (fold (updateAccount g) xs u)) = permissionOverwrites (updated u)"
  by (induction xs arbitrary: u) (simp_all add: updateAccount_overwrites)

lemma fold_updateAccount_read:
  assumes "distinct (map fst xs)"
  shows "b \<in> accountsWithReadPermission (updated (fold (updateAccount g) xs u)) \<longleftrightarrow>
           (case map_of xs b of
              None \<Rightarrow> b \<in> accountsWithReadPermission (updated u)
            | Some d \<Rightarrow> hasChannelPermissions (computeChannelPermissions b g (updated u) d)
                          ReadMessageHistory)"
  using assms
proof (induction xs arbitrary: u)
  case Nil
  show ?case by simp
next
  case (Cons x xs)
  obtain a d where x: "x = (a, d)" by (cases x)
  let ?u1 = "updateAccount g (a, d) u"
  have d': "distinct (map fst xs)" and notin: "a \<notin> fst ` set xs" using Cons.prems x by auto
  have ow: "permissionOverwrites (updated ?u1) = permissionOverwrites (updated u)"
    by (rule updateAccount_overwrites)
  have cp: "\<And>b d'. computeChannelPermissions b g (updated ?u1) d'
                     = computeChannelPermissions b g (updated u) d'"
    using ow by (rule computeChannelPermissions_overwrites)
  have IH: "b \<in> accountsWithReadPermission (updated (fold (updateAccount g) xs ?u1)) \<longleftrightarrow>
           (case map_of xs b of
              None \<Rightarrow> b \<in> accountsWithReadPermission (updated ?u1)
            | Some d \<Rightarrow> hasChannelPermissions (computeChannelPermissions b g (updated u) d)
                          ReadMessageHistory)"
    using Cons.IH [OF d', of ?u1] by (simp only: cp)
  show ?case
  proof (cases "b = a")
    case True
    then have "map_of xs b = None" using notin by (simp add: map_of_eq_None_iff)
    then show ?thesis using IH True x by (simp add: updateAccount_read)
  next
    case False
    then show ?thesis using IH x by (auto simp add: updateAccount_read split: option.splits)
  qed
qed

text \<open>
  What the loop tests, for every guild whose account records have distinct keys (they are
  the keys of a \<open>Map\<close>): an account with a record is in the read set afterwards exactly when
  its computed channel permissions include \<open>ReadMessageHistory\<close>, and membership of an
  account without a record is unchanged.
\<close>

lemma updateGuildChannelPermissions_tests_read_history:
  assumes "distinct (map fst (accountData guild))"
  shows "(\<forall>account data. map_of (accountData guild) account = Some data \<longrightarrow>
            (account \<in> accountsWithReadPermission
                          (updated (updateGuildChannelPermissions guild channel))
               \<longleftrightarrow> computeChannelPermissions account guild channel data AND ReadMessageHistory
                     = ReadMessageHistory))
       \<and> (\<forall>account. map_of (accountData guild) account = None \<longrightarrow>
            (account \<in> accountsWithReadPermission
                          (updated (updateGuildChannelPermissions guild channel))
               \<longleftrightarrow> account \<in> accountsWithReadPermission channel))"
  using fold_updateAccount_read [OF assms, of _ guild
          "\<lparr>updated = channel, accountsThatLostReadPermission = {},
            accountsThatLostManageThreadsPermission = {}\<rparr>"]
  by (simp add: updateGuildChannelPermissions_def hasChannelPermissions_def)


subsection \<open>The \<open>ChannelUpdate\<close> dispatch\<close>

text \<open>
  Claim C9 at a concrete dispatch. The channel \<open>c1\<close> is cached as \<open>ChannelCreate\<close> left it,
  with empty account sets; a \<open>ChannelUpdate\<close> arrives that renames it and carries the same
  overwrites as the cached ones. The incoming and the cached overwrite maps are equal, and
  yet the handler recomputes the permission sets: afterwards the read set is \<open>{a1}\<close>.
\<close>

theorem channelUpdate_recomputes_on_equal_overwrites:
  "areMapsEqual (overwritesOf (example_channel\<lparr>api_name := ''renamed''\<rparr>))
     (permissionOverwrites (createCachedChannel example_channel))
     (\<lambda>a b. allow a = allow b \<and> deny a = deny b)
   \<and> cachedChannelOf example_guilds ''g1'' ''c1'' = Some (createCachedChannel example_channel)
   \<and> accountsWithReadPermission (createCachedChannel example_channel) = {}
   \<and> map_option accountsWithReadPermission
        (cachedChannelOf (channelUpdate (example_channel\<lparr>api_name := ''renamed''\<rparr>) example_guilds)
           ''g1'' ''c1'')
       = Some {''a1''}"
  by code_simp

subsection \<open>At most one message sync\<close>



end
